theory Spec2Isabelle
  imports Main
begin

section \<open>Data model\<close>

text \<open>
  Errors are the values a promise is rejected with. The rotator never inspects them, it only
  passes them on; the test doubles reject with plain strings.
\<close>

type_synonym error = string

text \<open>
  Modelled from the spec: \<open>keyStatus.ts\<close> (the constants \<open>ACTIVE\<close> and \<open>INACTIVE\<close>) is
  imported by \<open>keyRotator.ts\<close> but is not among the sources. The spec gives a key a status
  in \<open>{ACTIVE, INACTIVE}\<close>.
\<close>

datatype key_status = ACTIVE | INACTIVE

text \<open>
  \<open>AccessKeyMetadata\<close> and \<open>AccessKey\<close> of the AWS SDK, with the fields the rotator and its
  tests read. Key identifiers are opaque and only compared for equality; they are numbers
  here so that the test double can draw fresh ones from a counter (\<open>uuidv4()\<close>).
  \<open>AccessKey\<close> extends the metadata, so \<open>deleteKey\<close> accepts both, as in the source.
\<close>

record AccessKeyMetadata =
  UserName :: string
  AccessKeyId :: nat
  Status :: key_status

record AccessKey = AccessKeyMetadata +
  SecretAccessKey :: string

section \<open>Promises\<close>

text \<open>
  A promise is a computation over the state of the remote service that settles either
  rejected (\<open>Inl\<close>) or resolved (\<open>Inr\<close>). The steps of one chain run in the order of the
  chain; console output is not modelled.
\<close>

type_synonym ('a, 's) promise = "'s \<Rightarrow> (error + 'a) \<times> 's"

definition promise_resolve :: "'a \<Rightarrow> ('a, 's) promise" where
  "promise_resolve a = (\<lambda>s. (Inr a, s))"

definition promise_reject :: "error \<Rightarrow> ('a, 's) promise" where
  "promise_reject e = (\<lambda>s. (Inl e, s))"

definition promise_then :: "('a, 's) promise \<Rightarrow> ('a \<Rightarrow> ('b, 's) promise) \<Rightarrow> ('b, 's) promise" where
  "promise_then p f = (\<lambda>s. case p s of (Inl e, s') \<Rightarrow> (Inl e, s') | (Inr a, s') \<Rightarrow> f a s')"

definition promise_catch :: "('a, 's) promise \<Rightarrow> (error \<Rightarrow> ('a, 's) promise) \<Rightarrow> ('a, 's) promise" where
  "promise_catch p f = (\<lambda>s. case p s of (Inl e, s') \<Rightarrow> f e s' | (Inr a, s') \<Rightarrow> (Inr a, s'))"

text \<open>
  \<open>Promise.all\<close> over requests that have all been issued already (\<open>deleteKeys\<close> calls
  \<open>deleteKey\<close> for every key in its \<open>forEach\<close> before it joins): every promise of the list
  runs, whether an earlier one was rejected or not. The requests are taken to be answered in
  the order in which they were sent, so the join is rejected with the error of the first
  rejected promise of the list, and what follows the join in the chain comes after all of
  them.
\<close>

fun promise_all :: "('a, 's) promise list \<Rightarrow> ('a list, 's) promise" where
  "promise_all [] s = (Inr [], s)"
| "promise_all (p # ps) s =
     (case p s of (r, s1) \<Rightarrow>
        (case promise_all ps s1 of (rs, s2) \<Rightarrow>
           ((case r of
               Inl e \<Rightarrow> Inl e
             | Inr a \<Rightarrow> (case rs of Inl e \<Rightarrow> Inl e | Inr as \<Rightarrow> Inr (a # as))), s2)))"

section \<open>The rotator (keyRotator.ts)\<close>

text \<open>
  The class \<open>KeyRotator\<close> of \<open>src/keyRotation/keyRotator.ts\<close>, function by function; \<open>this\<close>
  is the rotator, that is its IAM client and its handler. It is the revision that
  \<open>keyRotator.test.ts\<close> tests: \<open>performKeyRotation\<close> catches the error of creating, handling
  or deleting, deletes the INACTIVE listed keys and rejects with the error it caught. Later
  revisions of the class, which create a key again after the self-heal, are not modelled.

  The three operations of the IAM client that the rotator calls:
\<close>

record 's IAM =
  listAccessKeys :: "string \<Rightarrow> (AccessKeyMetadata list, 's) promise"
  createAccessKey :: "string \<Rightarrow> (AccessKey, 's) promise"
  deleteAccessKey :: "nat \<Rightarrow> string \<Rightarrow> (unit, 's) promise"

record 's KeyRotator =
  iam :: "'s IAM"
  newKeyHandler :: "AccessKey \<Rightarrow> (unit, 's) promise"

definition getExistingKeys :: "'s KeyRotator \<Rightarrow> string \<Rightarrow> (AccessKeyMetadata list, 's) promise" where
  "getExistingKeys this user =
     promise_then (listAccessKeys (iam this) user) (\<lambda>data. promise_resolve data)"

definition createNewKey :: "'s KeyRotator \<Rightarrow> string \<Rightarrow> (AccessKey, 's) promise" where
  "createNewKey this user =
     promise_then (createAccessKey (iam this) user) (\<lambda>newKey. promise_resolve newKey)"

definition deleteKey :: "'s KeyRotator \<Rightarrow> string \<Rightarrow> 'm AccessKeyMetadata_scheme \<Rightarrow> (unit, 's) promise" where
  "deleteKey this user key =
     promise_then (deleteAccessKey (iam this) (AccessKeyId key) user) (\<lambda>data. promise_resolve data)"

text \<open>
  \<open>deleteKeys\<close>: the local \<open>keysToDelete\<close> is the whole list when no filter is given and
  the filtered list otherwise; one \<open>deleteKey\<close> promise is pushed per key, in list order,
  and the promises are joined with \<open>Promise.all\<close>.
\<close>

definition keysToDelete ::
  "AccessKeyMetadata list \<Rightarrow> (AccessKeyMetadata \<Rightarrow> bool) option \<Rightarrow> AccessKeyMetadata list" where
  "keysToDelete keys filter_opt =
     (case filter_opt of None \<Rightarrow> keys | Some f \<Rightarrow> filter (\<lambda>key. f key) keys)"

definition deleteKeys ::
  "'s KeyRotator \<Rightarrow> string \<Rightarrow> AccessKeyMetadata list \<Rightarrow> (AccessKeyMetadata \<Rightarrow> bool) option
     \<Rightarrow> (unit, 's) promise" where
  "deleteKeys this user keys filter_opt =
     (let promises = map (\<lambda>key. deleteKey this user key) (keysToDelete keys filter_opt)
      in promise_then (promise_all promises) (\<lambda>data. promise_resolve ()))"

definition handleNewKey :: "'s KeyRotator \<Rightarrow> string \<Rightarrow> AccessKey \<Rightarrow> (unit, 's) promise" where
  "handleNewKey this user key =
     promise_catch (newKeyHandler this key)
       (\<lambda>err. promise_then (deleteKey this user key) (\<lambda>_. promise_reject err))"

definition performKeyRotation :: "'s KeyRotator \<Rightarrow> string \<Rightarrow> AccessKeyMetadata list \<Rightarrow> (unit, 's) promise" where
  "performKeyRotation this user keys =
     promise_catch
       (promise_then
          (promise_then (createNewKey this user) (\<lambda>key. handleNewKey this user key))
          (\<lambda>_. deleteKeys this user keys None))
       (\<lambda>err. promise_then
                 (deleteKeys this user keys (Some (\<lambda>key. Status key = INACTIVE)))
                 (\<lambda>_. promise_reject err))"

definition rotateKeys :: "'s KeyRotator \<Rightarrow> string \<Rightarrow> (unit, 's) promise" where
  "rotateKeys this user =
     promise_catch
       (promise_then (getExistingKeys this user) (\<lambda>keys. performKeyRotation this user keys))
       (\<lambda>err. promise_reject err)"

section \<open>Observing the calls of a run\<close>

text \<open>
  What a run does to its collaborators is the sequence of requests it sends to the IAM client
  and of calls to the handler, each with the way it settled. \<open>traced\<close> wraps any rotator
  so that every such call is appended to a trace kept beside the state; the wrapped
  collaborators behave as before.
\<close>

datatype request =
    ListAccessKeysRequest string
  | CreateAccessKeyRequest string
  | DeleteAccessKeyRequest nat string
  | NewKeyHandlerCall AccessKey

type_synonym event = "request \<times> error option"

definition outcome :: "error + 'a \<Rightarrow> error option" where
  "outcome r = (case r of Inl e \<Rightarrow> Some e | Inr _ \<Rightarrow> None)"

definition observed :: "request \<Rightarrow> ('a, 's) promise \<Rightarrow> ('a, 's \<times> event list) promise" where
  "observed rq p = (\<lambda>(s, tr). case p s of (r, s') \<Rightarrow> (r, (s', tr @ [(rq, outcome r)])))"

definition traced :: "'s KeyRotator \<Rightarrow> ('s \<times> event list) KeyRotator" where
  "traced this =
     \<lparr> iam =
         \<lparr> listAccessKeys = (\<lambda>u. observed (ListAccessKeysRequest u) (listAccessKeys (iam this) u)),
           createAccessKey = (\<lambda>u. observed (CreateAccessKeyRequest u) (createAccessKey (iam this) u)),
           deleteAccessKey = (\<lambda>i u. observed (DeleteAccessKeyRequest i u) (deleteAccessKey (iam this) i u)) \<rparr>,
       newKeyHandler = (\<lambda>k. observed (NewKeyHandlerCall k) (newKeyHandler this k)) \<rparr>"

fun is_create :: "request \<Rightarrow> bool" where
  "is_create (CreateAccessKeyRequest u) = True"
| "is_create _ = False"

fun is_delete :: "request \<Rightarrow> bool" where
  "is_delete (DeleteAccessKeyRequest i u) = True"
| "is_delete _ = False"

section \<open>The test doubles of the IAM service (keyRotator.test.ts)\<close>

text \<open>
  The state of the doubles: the test's \<open>keys\<close> and \<open>newKey\<close> variables, the supply of
  \<open>uuidv4()\<close>, and a schedule of faults. The tests replace a whole operation by
  \<open>mockErrorCallback\<close>; the schedule does so call by call: each call to the service takes the
  next entry, \<open>True\<close> answers it with \<open>mockErrorCallback\<close>, \<open>False\<close> (or an exhausted
  schedule) with the working double.
\<close>

record mock =
  keys :: "AccessKeyMetadata list"
  newKey :: "AccessKeyMetadata option"
  uuid :: nat
  faults :: "bool list"

definition createKey :: "string \<Rightarrow> nat \<Rightarrow> key_status \<Rightarrow> AccessKeyMetadata" where
  "createKey user i status = \<lparr> UserName = user, AccessKeyId = i, Status = status \<rparr>"

definition mockListAccessKeys :: "string \<Rightarrow> (AccessKeyMetadata list, mock) promise" where
  "mockListAccessKeys user = (\<lambda>s. (Inr (keys s), s))"

definition mockCreateAccessKey :: "string \<Rightarrow> (AccessKey, mock) promise" where
  "mockCreateAccessKey user = (\<lambda>s.
     if length (keys s) \<ge> 2 then (Inl ''Maximum 2 keys.'', s)
     else
       (let accessKey = \<lparr> UserName = user, AccessKeyId = uuid s, Status = ACTIVE,
                          SecretAccessKey = '''' \<rparr>;
            nk = \<lparr> UserName = UserName accessKey, AccessKeyId = AccessKeyId accessKey,
                   Status = Status accessKey \<rparr>
        in (Inr accessKey, s\<lparr> keys := keys s @ [nk], newKey := Some nk, uuid := Suc (uuid s) \<rparr>)))"

definition mockDeleteAccessKey :: "nat \<Rightarrow> string \<Rightarrow> (unit, mock) promise" where
  "mockDeleteAccessKey i user = (\<lambda>s.
     (Inr (), s\<lparr> keys := filter (\<lambda>key. AccessKeyId key \<noteq> i) (keys s) \<rparr>))"

definition mockErrorCallback :: "('a, mock) promise" where
  "mockErrorCallback = (\<lambda>s. (Inl ''Test Error'', s))"

definition scheduled :: "('a, mock) promise \<Rightarrow> ('a, mock) promise" where
  "scheduled p = (\<lambda>s.
     case faults s of
       [] \<Rightarrow> p s
     | b # bs \<Rightarrow> (if b then mockErrorCallback (s\<lparr> faults := bs \<rparr>) else p (s\<lparr> faults := bs \<rparr>)))"

definition mockIAM :: "mock IAM" where
  "mockIAM =
     \<lparr> listAccessKeys = (\<lambda>u. scheduled (mockListAccessKeys u)),
       createAccessKey = (\<lambda>u. scheduled (mockCreateAccessKey u)),
       deleteAccessKey = (\<lambda>i u. scheduled (mockDeleteAccessKey i u)) \<rparr>"

text \<open>
  A handler of the tests only resolves or rejects: \<open>h key = None\<close> accepts the key,
  \<open>h key = Some e\<close> rejects it with \<open>e\<close>. It does not touch the service.
\<close>

definition keyHandler :: "(AccessKey \<Rightarrow> error option) \<Rightarrow> AccessKey \<Rightarrow> (unit, 's) promise" where
  "keyHandler h key = (case h key of None \<Rightarrow> promise_resolve () | Some e \<Rightarrow> promise_reject e)"

definition keyRotator :: "(AccessKey \<Rightarrow> error option) \<Rightarrow> mock KeyRotator" where
  "keyRotator h = \<lparr> iam = mockIAM, newKeyHandler = keyHandler h \<rparr>"

text \<open>
  Identifiers produced by \<open>uuidv4()\<close> are unique: the keys of a state have distinct
  identifiers, all drawn from the supply already.
\<close>

definition unique_ids :: "mock \<Rightarrow> bool" where
  "unique_ids s \<longleftrightarrow> distinct (map AccessKeyId (keys s)) \<and> list_all (\<lambda>k. AccessKeyId k < uuid s) (keys s)"

text \<open>A sequence of runs, one handler per run, each starting from the state the last one left.\<close>

fun runs :: "(AccessKey \<Rightarrow> error option) list \<Rightarrow> string \<Rightarrow> mock \<Rightarrow> mock" where
  "runs [] user s = s"
| "runs (h # hs) user s = runs hs user (snd (rotateKeys (keyRotator h) user s))"

text \<open>
  The fixtures of the tests: the user, a handler that resolves and one that rejects, and a
  starting state whose existing keys were pushed with \<open>createKey(status)\<close> one after the
  other (so they hold the identifiers \<open>0, 1, ...\<close>), with a given schedule of faults.
\<close>

definition testUser :: string where
  "testUser = ''TestUser''"

definition acceptingHandler :: "AccessKey \<Rightarrow> error option" where
  "acceptingHandler key = None"

definition rejectingHandler :: "AccessKey \<Rightarrow> error option" where
  "rejectingHandler key = Some ''Could not handle new key''"

definition testState :: "key_status list \<Rightarrow> bool list \<Rightarrow> mock" where
  "testState statuses fs =
     \<lparr> keys = map (\<lambda>(i, status). createKey testUser i status) (enumerate 0 statuses),
       newKey = None, uuid = length statuses, faults = fs \<rparr>"

section \<open>Running the promise chains\<close>

text \<open>
  Each function of the rotator, applied to a state, written out as the case analysis its
  \<open>then\<close>/\<open>catch\<close> chain performs; and from these the five ways a run of \<open>rotateKeys\<close>
  can go: the listing fails; creation fails; the handler rejects; the deletion of the old
  keys fails; or every step succeeds.
\<close>

lemma then_resolve [simp]: "promise_then p (\<lambda>x. promise_resolve x) = p"
  by (auto simp: promise_then_def promise_resolve_def fun_eq_iff split: prod.splits sum.splits)

lemma getExistingKeys_apply: "getExistingKeys this user = listAccessKeys (iam this) user"
  by (simp add: getExistingKeys_def)

lemma createNewKey_apply: "createNewKey this user = createAccessKey (iam this) user"
  by (simp add: createNewKey_def)

lemma deleteKey_apply: "deleteKey this user key = deleteAccessKey (iam this) (AccessKeyId key) user"
  by (simp add: deleteKey_def)

lemma deleteKeys_apply:
  "deleteKeys this user K f s =
     (case promise_all (map (deleteKey this user) (keysToDelete K f)) s of
        (Inl e, s') \<Rightarrow> (Inl e, s') | (Inr _, s') \<Rightarrow> (Inr (), s'))"
  by (simp add: deleteKeys_def promise_then_def promise_resolve_def split: prod.splits sum.splits)

lemma handleNewKey_apply:
  "handleNewKey this user key s =
     (case newKeyHandler this key s of
        (Inr a, s1) \<Rightarrow> (Inr a, s1)
      | (Inl e, s1) \<Rightarrow>
          (case deleteAccessKey (iam this) (AccessKeyId key) user s1 of
             (Inl e', s2) \<Rightarrow> (Inl e', s2)
           | (Inr _, s2) \<Rightarrow> (Inl e, s2)))"
  by (simp add: handleNewKey_def deleteKey_apply promise_catch_def promise_then_def promise_reject_def
      split: prod.splits sum.splits)

lemma self_heal_apply:
  "promise_then (deleteKeys this user K (Some P)) (\<lambda>_. promise_reject err) s =
     (case deleteKeys this user K (Some P) s of (hres, s') \<Rightarrow>
        ((case hres of Inl e' \<Rightarrow> Inl e' | Inr _ \<Rightarrow> Inl err), s'))"
  by (simp add: promise_then_def promise_reject_def split: prod.splits sum.splits)

lemma performKeyRotation_apply:
  "performKeyRotation this user K s =
     (case createAccessKey (iam this) user s of
        (Inl e, s2) \<Rightarrow>
          promise_then (deleteKeys this user K (Some (\<lambda>key. Status key = INACTIVE))) (\<lambda>_. promise_reject e) s2
      | (Inr key, s2) \<Rightarrow>
          (case handleNewKey this user key s2 of
             (Inl e, s3) \<Rightarrow>
               promise_then (deleteKeys this user K (Some (\<lambda>key. Status key = INACTIVE))) (\<lambda>_. promise_reject e) s3
           | (Inr _, s3) \<Rightarrow>
               (case deleteKeys this user K None s3 of
                  (Inl e, s4) \<Rightarrow>
                    promise_then (deleteKeys this user K (Some (\<lambda>key. Status key = INACTIVE))) (\<lambda>_. promise_reject e) s4
                | (Inr _, s4) \<Rightarrow> (Inr (), s4))))"
  unfolding performKeyRotation_def createNewKey_apply
  by (simp add: promise_catch_def promise_then_def [of "createAccessKey (iam this) user"]
       promise_then_def [of "promise_then _ _"] promise_then_def [of "\<lambda>s. _ s"] split: prod.splits sum.splits)

lemma rotateKeys_apply:
  "rotateKeys this user s =
     (case listAccessKeys (iam this) user s of
        (Inl e, s1) \<Rightarrow> (Inl e, s1)
      | (Inr K, s1) \<Rightarrow> performKeyRotation this user K s1)"
  unfolding rotateKeys_def getExistingKeys_apply
  by (simp add: promise_catch_def promise_then_def promise_reject_def split: prod.splits sum.splits)


lemma rotateKeys_cases [consumes 1, case_names list_failed create_failed handler_failed cleanup_failed success]:
  assumes run: "rotateKeys this user s = (res, s')"
  obtains
    (list_failed) e where
      "listAccessKeys (iam this) user s = (Inl e, s')" "res = Inl e"
  | (create_failed) K s1 e s2 hres where
      "listAccessKeys (iam this) user s = (Inr K, s1)"
      "createAccessKey (iam this) user s1 = (Inl e, s2)"
      "deleteKeys this user K (Some (\<lambda>key. Status key = INACTIVE)) s2 = (hres, s')"
      "res = (case hres of Inl e' \<Rightarrow> Inl e' | Inr _ \<Rightarrow> Inl e)"
  | (handler_failed) K s1 key s2 e s3 dres s4 hres where
      "listAccessKeys (iam this) user s = (Inr K, s1)"
      "createAccessKey (iam this) user s1 = (Inr key, s2)"
      "newKeyHandler this key s2 = (Inl e, s3)"
      "deleteAccessKey (iam this) (AccessKeyId key) user s3 = (dres, s4)"
      "deleteKeys this user K (Some (\<lambda>key. Status key = INACTIVE)) s4 = (hres, s')"
      "res = (case hres of Inl e' \<Rightarrow> Inl e' | Inr _ \<Rightarrow> (case dres of Inl e' \<Rightarrow> Inl e' | Inr _ \<Rightarrow> Inl e))"
  | (cleanup_failed) K s1 key s2 s3 e s4 hres where
      "listAccessKeys (iam this) user s = (Inr K, s1)"
      "createAccessKey (iam this) user s1 = (Inr key, s2)"
      "newKeyHandler this key s2 = (Inr (), s3)"
      "deleteKeys this user K None s3 = (Inl e, s4)"
      "deleteKeys this user K (Some (\<lambda>key. Status key = INACTIVE)) s4 = (hres, s')"
      "res = (case hres of Inl e' \<Rightarrow> Inl e' | Inr _ \<Rightarrow> Inl e)"
  | (success) K s1 key s2 s3 where
      "listAccessKeys (iam this) user s = (Inr K, s1)"
      "createAccessKey (iam this) user s1 = (Inr key, s2)"
      "newKeyHandler this key s2 = (Inr (), s3)"
      "deleteKeys this user K None s3 = (Inr (), s')"
      "res = Inr ()"
proof -
  obtain lres s1 where l: "listAccessKeys (iam this) user s = (lres, s1)"
    by (cases "listAccessKeys (iam this) user s")
  show thesis
  proof (cases lres)
    case (Inl e)
    with run l show thesis by (auto simp: rotateKeys_apply intro: list_failed)
  next
    case (Inr K)
    with run l have p: "performKeyRotation this user K s1 = (res, s')"
      by (simp add: rotateKeys_apply)
    obtain cres s2 where c: "createAccessKey (iam this) user s1 = (cres, s2)"
      by (cases "createAccessKey (iam this) user s1")
    show thesis
    proof (cases cres)
      case (Inl e)
      obtain hres sh where h: "deleteKeys this user K (Some (\<lambda>key. Status key = INACTIVE)) s2 = (hres, sh)"
        by (cases "deleteKeys this user K (Some (\<lambda>key. Status key = INACTIVE)) s2")
      from p c Inl h have "sh = s'" "res = (case hres of Inl e' \<Rightarrow> Inl e' | Inr _ \<Rightarrow> Inl e)"
        by (simp_all add: performKeyRotation_apply self_heal_apply)
      with l Inr c Inl h show thesis by (auto intro: create_failed)
    next
      case key: (Inr key)
      obtain nres s3 where n: "newKeyHandler this key s2 = (nres, s3)"
        by (cases "newKeyHandler this key s2")
      show thesis
      proof (cases nres)
        case (Inl e)
        obtain dres s4 where d: "deleteAccessKey (iam this) (AccessKeyId key) user s3 = (dres, s4)"
          by (cases "deleteAccessKey (iam this) (AccessKeyId key) user s3")
        obtain hres sh where h: "deleteKeys this user K (Some (\<lambda>key. Status key = INACTIVE)) s4 = (hres, sh)"
          by (cases "deleteKeys this user K (Some (\<lambda>key. Status key = INACTIVE)) s4")
        from p c key n Inl d h have "sh = s'"
          "res = (case hres of Inl e' \<Rightarrow> Inl e' | Inr _ \<Rightarrow> (case dres of Inl e' \<Rightarrow> Inl e' | Inr _ \<Rightarrow> Inl e))"
          by (auto simp: performKeyRotation_apply handleNewKey_apply self_heal_apply split: sum.splits)
        with l Inr c key n Inl d h show thesis by (auto intro: handler_failed)
      next
        case ok: (Inr u)
        obtain kres s4 where k: "deleteKeys this user K None s3 = (kres, s4)"
          by (cases "deleteKeys this user K None s3")
        show thesis
        proof (cases kres)
          case (Inl e)
          obtain hres sh where h: "deleteKeys this user K (Some (\<lambda>key. Status key = INACTIVE)) s4 = (hres, sh)"
            by (cases "deleteKeys this user K (Some (\<lambda>key. Status key = INACTIVE)) s4")
          from p c key n ok k Inl h have "sh = s'" "res = (case hres of Inl e' \<Rightarrow> Inl e' | Inr _ \<Rightarrow> Inl e)"
            by (simp_all add: performKeyRotation_apply handleNewKey_apply self_heal_apply)
          with l Inr c key n ok k Inl h show thesis by (auto intro: cleanup_failed)
        next
          case fin: (Inr v)
          from p c key n ok k fin have "s4 = s'" "res = Inr ()"
            by (simp_all add: performKeyRotation_apply handleNewKey_apply)
          with l Inr c key n ok k fin show thesis by (auto intro: success)
        qed
      qed
    qed
  qed
qed


subsection \<open>The traced rotator\<close>

text \<open>
  A traced call behaves as the call it wraps and appends one event. A traced \<open>deleteKeys\<close>
  appends one deletion request per selected key; it is rejected with the error of one of
  them, and resolves only when none was rejected.
\<close>

lemma observed_run:
  "observed rq p (s, tr) = (res, w) \<Longrightarrow> \<exists>s'. p s = (res, s') \<and> w = (s', tr @ [(rq, outcome res)])"
  by (auto simp: observed_def split: prod.splits)

lemma traced_list: "listAccessKeys (iam (traced this)) u = observed (ListAccessKeysRequest u) (listAccessKeys (iam this) u)"
  by (simp add: traced_def)

lemma traced_create: "createAccessKey (iam (traced this)) u = observed (CreateAccessKeyRequest u) (createAccessKey (iam this) u)"
  by (simp add: traced_def)

lemma traced_delete: "deleteAccessKey (iam (traced this)) i u = observed (DeleteAccessKeyRequest i u) (deleteAccessKey (iam this) i u)"
  by (simp add: traced_def)

lemma traced_handler: "newKeyHandler (traced this) k = observed (NewKeyHandlerCall k) (newKeyHandler this k)"
  by (simp add: traced_def)

lemma traced_delete_all:
  "promise_all (map (deleteKey (traced this) u) ks) (s, tr) = (res, w) \<Longrightarrow>
     \<exists>s' evs. w = (s', tr @ evs) \<and> promise_all (map (deleteKey this u) ks) s = (res, s')
       \<and> map fst evs = map (\<lambda>k. DeleteAccessKeyRequest (AccessKeyId k) u) ks
       \<and> (case res of Inl e \<Rightarrow> (\<exists>ev\<in>set evs. snd ev = Some e) | Inr _ \<Rightarrow> (\<forall>ev\<in>set evs. snd ev = None))"
proof (induction ks arbitrary: s tr res w)
  case Nil
  then show ?case by auto
next
  case (Cons k ks)
  obtain r1 w1 where d: "deleteKey (traced this) u k (s, tr) = (r1, w1)"
    by (cases "deleteKey (traced this) u k (s, tr)")
  then obtain s1 where d1: "deleteKey this u k s = (r1, s1)"
    and w1: "w1 = (s1, tr @ [(DeleteAccessKeyRequest (AccessKeyId k) u, outcome r1)])"
    by (auto simp: deleteKey_apply traced_delete dest: observed_run)
  obtain rs w2 where a: "promise_all (map (deleteKey (traced this) u) ks) w1 = (rs, w2)"
    by (cases "promise_all (map (deleteKey (traced this) u) ks) w1")
  from Cons.IH [OF a [unfolded w1]] obtain s2 evs where
    w2: "w2 = (s2, (tr @ [(DeleteAccessKeyRequest (AccessKeyId k) u, outcome r1)]) @ evs)"
    and a1: "promise_all (map (deleteKey this u) ks) s1 = (rs, s2)"
    and rq: "map fst evs = map (\<lambda>k. DeleteAccessKeyRequest (AccessKeyId k) u) ks"
    and oc: "(case rs of Inl e \<Rightarrow> (\<exists>ev\<in>set evs. snd ev = Some e) | Inr _ \<Rightarrow> (\<forall>ev\<in>set evs. snd ev = None))"
    by blast
  from Cons.prems d a have res: "res = (case r1 of Inl e \<Rightarrow> Inl e | Inr x \<Rightarrow> (case rs of Inl e \<Rightarrow> Inl e | Inr xs \<Rightarrow> Inr (x # xs)))"
    and w: "w = w2" by auto
  let ?evs = "(DeleteAccessKeyRequest (AccessKeyId k) u, outcome r1) # evs"
  have "w = (s2, tr @ ?evs)" using w w2 by simp
  moreover have "promise_all (map (deleteKey this u) (k # ks)) s = (res, s2)"
    using d1 a1 res by simp
  moreover have "map fst ?evs = map (\<lambda>k. DeleteAccessKeyRequest (AccessKeyId k) u) (k # ks)"
    using rq by simp
  moreover have "(case res of Inl e \<Rightarrow> (\<exists>ev\<in>set ?evs. snd ev = Some e) | Inr _ \<Rightarrow> (\<forall>ev\<in>set ?evs. snd ev = None))"
    using oc res by (auto simp: outcome_def split: sum.splits)
  ultimately show ?case by blast
qed

lemma traced_deleteKeys:
  assumes "deleteKeys (traced this) u K f (s, tr) = (res, w)"
  shows "\<exists>s' evs. w = (s', tr @ evs) \<and> deleteKeys this u K f s = (res, s')
       \<and> map fst evs = map (\<lambda>k. DeleteAccessKeyRequest (AccessKeyId k) u) (keysToDelete K f)
       \<and> (case res of Inl e \<Rightarrow> (\<exists>ev\<in>set evs. snd ev = Some e) | Inr _ \<Rightarrow> (\<forall>ev\<in>set evs. snd ev = None))"
proof -
  obtain rs w' where a: "promise_all (map (deleteKey (traced this) u) (keysToDelete K f)) (s, tr) = (rs, w')"
    by (cases "promise_all (map (deleteKey (traced this) u) (keysToDelete K f)) (s, tr)")
  from traced_delete_all [OF a] obtain s' evs where
    "w' = (s', tr @ evs)" "promise_all (map (deleteKey this u) (keysToDelete K f)) s = (rs, s')"
    "map fst evs = map (\<lambda>k. DeleteAccessKeyRequest (AccessKeyId k) u) (keysToDelete K f)"
    "(case rs of Inl e \<Rightarrow> (\<exists>ev\<in>set evs. snd ev = Some e) | Inr _ \<Rightarrow> (\<forall>ev\<in>set evs. snd ev = None))"
    by blast
  with assms a show ?thesis
    by (cases rs) (force simp: deleteKeys_apply)+
qed

subsection \<open>The test doubles\<close>

text \<open>
  What one call to a double does to the state, and what a batch of deletions does: it removes
  the keys of a set \<open>D\<close> of the requested identifiers, all of them when the batch resolves.
\<close>

lemma mock_list_run:
  assumes "listAccessKeys (iam (keyRotator h)) u s = (res, s')"
  shows "keys s' = keys s \<and> uuid s' = uuid s \<and> newKey s' = newKey s \<and> faults s' = tl (faults s)
         \<and> (isl res \<and> faults s \<noteq> [] \<or> res = Inr (keys s))"
  using assms
  by (auto simp: keyRotator_def mockIAM_def mockListAccessKeys_def scheduled_def mockErrorCallback_def
      split: list.splits if_splits)

lemma mock_create_run:
  assumes "createAccessKey (iam (keyRotator h)) u s = (res, s')"
  shows "faults s' = tl (faults s) \<and>
         (isl res \<and> keys s' = keys s \<and> uuid s' = uuid s \<and> newKey s' = newKey s
            \<and> (faults s = [] \<longrightarrow> 2 \<le> length (keys s) \<and> res = Inl ''Maximum 2 keys.'')
          \<or> length (keys s) < 2
            \<and> res = Inr \<lparr> UserName = u, AccessKeyId = uuid s, Status = ACTIVE, SecretAccessKey = '''' \<rparr>
            \<and> keys s' = keys s @ [createKey u (uuid s) ACTIVE] \<and> uuid s' = Suc (uuid s)
            \<and> newKey s' = Some (createKey u (uuid s) ACTIVE))"
  using assms
  by (auto simp: keyRotator_def mockIAM_def mockCreateAccessKey_def scheduled_def mockErrorCallback_def
      createKey_def Let_def split: list.splits if_splits)

lemma mock_delete_run:
  assumes "deleteAccessKey (iam (keyRotator h)) i u s = (res, s')"
  shows "uuid s' = uuid s \<and> newKey s' = newKey s \<and> faults s' = tl (faults s)
         \<and> (isl res \<and> keys s' = keys s \<and> faults s \<noteq> []
            \<or> res = Inr () \<and> keys s' = filter (\<lambda>k. AccessKeyId k \<noteq> i) (keys s))"
  using assms
  by (auto simp: keyRotator_def mockIAM_def mockDeleteAccessKey_def scheduled_def mockErrorCallback_def
      split: list.splits if_splits)

lemma mock_handler_run:
  assumes "newKeyHandler (keyRotator h) key s = (res, s')"
  shows "s' = s \<and> res = (case h key of None \<Rightarrow> Inr () | Some e \<Rightarrow> Inl e)"
  using assms
  by (auto simp: keyRotator_def keyHandler_def promise_resolve_def promise_reject_def split: option.splits)

lemma mock_delete_all:
  "promise_all (map (deleteKey (keyRotator h) u) ks) s = (res, s') \<Longrightarrow>
     \<exists>D. D \<subseteq> AccessKeyId ` set ks
       \<and> keys s' = filter (\<lambda>k. AccessKeyId k \<notin> D) (keys s)
       \<and> uuid s' = uuid s \<and> newKey s' = newKey s
       \<and> (\<not> isl res \<longrightarrow> D = AccessKeyId ` set ks)
       \<and> (faults s = [] \<longrightarrow> \<not> isl res \<and> faults s' = [])"
proof (induction ks arbitrary: s res s')
  case Nil
  then show ?case by (auto intro: exI [of _ "{}"])
next
  case (Cons k ks)
  obtain r1 s1 where d0: "deleteKey (keyRotator h) u k s = (r1, s1)"
    by (cases "deleteKey (keyRotator h) u k s")
  then have d: "deleteAccessKey (iam (keyRotator h)) (AccessKeyId k) u s = (r1, s1)"
    by (simp add: deleteKey_apply)
  obtain rs s2 where a: "promise_all (map (deleteKey (keyRotator h) u) ks) s1 = (rs, s2)"
    by (cases "promise_all (map (deleteKey (keyRotator h) u) ks) s1")
  from Cons.prems d0 a have res: "res = (case r1 of Inl e \<Rightarrow> Inl e | Inr x \<Rightarrow> (case rs of Inl e \<Rightarrow> Inl e | Inr xs \<Rightarrow> Inr (x # xs)))"
    and s': "s' = s2" by auto
  from Cons.IH [OF a] obtain D where D: "D \<subseteq> AccessKeyId ` set ks"
    "keys s2 = filter (\<lambda>k. AccessKeyId k \<notin> D) (keys s1)" "uuid s2 = uuid s1" "newKey s2 = newKey s1"
    "\<not> isl rs \<longrightarrow> D = AccessKeyId ` set ks" "faults s1 = [] \<longrightarrow> \<not> isl rs \<and> faults s2 = []"
    by blast
  note m = mock_delete_run [OF d]
  show ?case
  proof (cases r1)
    case (Inl e)
    with m have "keys s1 = keys s" "faults s \<noteq> []" by auto
    with D m Inl res s' show ?thesis
      by (intro exI [of _ D]) auto
  next
    case (Inr x)
    with m have k1: "keys s1 = filter (\<lambda>k'. AccessKeyId k' \<noteq> AccessKeyId k) (keys s)" by auto
    have "keys s2 = filter (\<lambda>k'. AccessKeyId k' \<notin> insert (AccessKeyId k) D) (keys s)"
      unfolding D(2) k1 by (auto intro: filter_cong)
    moreover have "faults s = [] \<longrightarrow> faults s1 = []" using m by simp
    ultimately show ?thesis using D m Inr res s'
      by (intro exI [of _ "insert (AccessKeyId k) D"]) (auto split: sum.splits)
  qed
qed

lemma mock_deleteKeys:
  assumes "deleteKeys (keyRotator h) u K f s = (res, s')"
  shows "\<exists>D. D \<subseteq> AccessKeyId ` set (keysToDelete K f)
       \<and> keys s' = filter (\<lambda>k. AccessKeyId k \<notin> D) (keys s)
       \<and> uuid s' = uuid s \<and> newKey s' = newKey s
       \<and> (res = Inr () \<longrightarrow> D = AccessKeyId ` set (keysToDelete K f))
       \<and> (faults s = [] \<longrightarrow> res = Inr () \<and> faults s' = [])"
proof -
  obtain rs s2 where a: "promise_all (map (deleteKey (keyRotator h) u) (keysToDelete K f)) s = (rs, s2)"
    by (cases "promise_all (map (deleteKey (keyRotator h) u) (keysToDelete K f)) s")
  from assms a have "s' = s2" "res = (case rs of Inl e \<Rightarrow> Inl e | Inr _ \<Rightarrow> Inr ())"
    by (auto simp: deleteKeys_apply split: sum.splits)
  with mock_delete_all [OF a] show ?thesis
    by (cases rs) auto
qed

subsection \<open>The shape of a traced run\<close>

lemma traced_rotateKeys_cases [consumes 1, case_names list_failed create_failed handler_failed cleanup_failed success]:
  assumes run: "rotateKeys (traced this) user (s, tr) = (res, (s', tr'))"
  obtains
    (list_failed) e where
      "listAccessKeys (iam this) user s = (Inl e, s')" "res = Inl e"
      "tr' = tr @ [(ListAccessKeysRequest user, Some e)]"
  | (create_failed) K s1 e s2 hres evs where
      "listAccessKeys (iam this) user s = (Inr K, s1)"
      "createAccessKey (iam this) user s1 = (Inl e, s2)"
      "deleteKeys this user K (Some (\<lambda>key. Status key = INACTIVE)) s2 = (hres, s')"
      "res = (case hres of Inl e' \<Rightarrow> Inl e' | Inr _ \<Rightarrow> Inl e)"
      "tr' = tr @ [(ListAccessKeysRequest user, None), (CreateAccessKeyRequest user, Some e)] @ evs"
      "map fst evs = map (\<lambda>k. DeleteAccessKeyRequest (AccessKeyId k) user)
                       (keysToDelete K (Some (\<lambda>key. Status key = INACTIVE)))"
      "case hres of Inl e' \<Rightarrow> (\<exists>ev\<in>set evs. snd ev = Some e') | Inr _ \<Rightarrow> (\<forall>ev\<in>set evs. snd ev = None)"
  | (handler_failed) K s1 key s2 e s3 dres s4 hres evs where
      "listAccessKeys (iam this) user s = (Inr K, s1)"
      "createAccessKey (iam this) user s1 = (Inr key, s2)"
      "newKeyHandler this key s2 = (Inl e, s3)"
      "deleteAccessKey (iam this) (AccessKeyId key) user s3 = (dres, s4)"
      "deleteKeys this user K (Some (\<lambda>key. Status key = INACTIVE)) s4 = (hres, s')"
      "res = (case hres of Inl e' \<Rightarrow> Inl e' | Inr _ \<Rightarrow> (case dres of Inl e' \<Rightarrow> Inl e' | Inr _ \<Rightarrow> Inl e))"
      "tr' = tr @ [(ListAccessKeysRequest user, None), (CreateAccessKeyRequest user, None),
                   (NewKeyHandlerCall key, Some e),
                   (DeleteAccessKeyRequest (AccessKeyId key) user, outcome dres)] @ evs"
      "map fst evs = map (\<lambda>k. DeleteAccessKeyRequest (AccessKeyId k) user)
                       (keysToDelete K (Some (\<lambda>key. Status key = INACTIVE)))"
      "case hres of Inl e' \<Rightarrow> (\<exists>ev\<in>set evs. snd ev = Some e') | Inr _ \<Rightarrow> (\<forall>ev\<in>set evs. snd ev = None)"
  | (cleanup_failed) K s1 key s2 s3 e s4 hres evs1 evs2 where
      "listAccessKeys (iam this) user s = (Inr K, s1)"
      "createAccessKey (iam this) user s1 = (Inr key, s2)"
      "newKeyHandler this key s2 = (Inr (), s3)"
      "deleteKeys this user K None s3 = (Inl e, s4)"
      "deleteKeys this user K (Some (\<lambda>key. Status key = INACTIVE)) s4 = (hres, s')"
      "res = (case hres of Inl e' \<Rightarrow> Inl e' | Inr _ \<Rightarrow> Inl e)"
      "tr' = tr @ [(ListAccessKeysRequest user, None), (CreateAccessKeyRequest user, None),
                   (NewKeyHandlerCall key, None)] @ evs1 @ evs2"
      "map fst evs1 = map (\<lambda>k. DeleteAccessKeyRequest (AccessKeyId k) user) (keysToDelete K None)"
      "\<exists>ev\<in>set evs1. snd ev = Some e"
      "map fst evs2 = map (\<lambda>k. DeleteAccessKeyRequest (AccessKeyId k) user)
                        (keysToDelete K (Some (\<lambda>key. Status key = INACTIVE)))"
      "case hres of Inl e' \<Rightarrow> (\<exists>ev\<in>set evs2. snd ev = Some e') | Inr _ \<Rightarrow> (\<forall>ev\<in>set evs2. snd ev = None)"
  | (success) K s1 key s2 s3 evs where
      "listAccessKeys (iam this) user s = (Inr K, s1)"
      "createAccessKey (iam this) user s1 = (Inr key, s2)"
      "newKeyHandler this key s2 = (Inr (), s3)"
      "deleteKeys this user K None s3 = (Inr (), s')"
      "res = Inr ()"
      "tr' = tr @ [(ListAccessKeysRequest user, None), (CreateAccessKeyRequest user, None),
                   (NewKeyHandlerCall key, None)] @ evs"
      "map fst evs = map (\<lambda>k. DeleteAccessKeyRequest (AccessKeyId k) user) (keysToDelete K None)"
      "\<forall>ev\<in>set evs. snd ev = None"
  using run
proof (cases rule: rotateKeys_cases)
  case (list_failed e)
  then show ?thesis
    by (intro that(1) [of e]) (auto simp: traced_list outcome_def dest!: observed_run)
next
  case (create_failed K w1 e w2 hres)
  from create_failed(1) obtain s1 where l: "listAccessKeys (iam this) user s = (Inr K, s1)"
    and w1: "w1 = (s1, tr @ [(ListAccessKeysRequest user, None)])"
    by (auto simp: traced_list outcome_def dest!: observed_run)
  from create_failed(2) w1 obtain s2 where c: "createAccessKey (iam this) user s1 = (Inl e, s2)"
    and w2: "w2 = (s2, tr @ [(ListAccessKeysRequest user, None), (CreateAccessKeyRequest user, Some e)])"
    by (auto simp: traced_create outcome_def dest!: observed_run)
  from traced_deleteKeys [OF create_failed(3) [unfolded w2]] obtain evs where
    "deleteKeys this user K (Some (\<lambda>key. Status key = INACTIVE)) s2 = (hres, s')"
    "tr' = (tr @ [(ListAccessKeysRequest user, None), (CreateAccessKeyRequest user, Some e)]) @ evs"
    "map fst evs = map (\<lambda>k. DeleteAccessKeyRequest (AccessKeyId k) user)
                       (keysToDelete K (Some (\<lambda>key. Status key = INACTIVE)))"
    "case hres of Inl e' \<Rightarrow> (\<exists>ev\<in>set evs. snd ev = Some e') | Inr _ \<Rightarrow> (\<forall>ev\<in>set evs. snd ev = None)"
    by auto
  with l c create_failed(4) show ?thesis
    by (intro that(2) [of K s1 e s2 hres evs]) auto
next
  case (handler_failed K w1 key w2 e w3 dres w4 hres)
  from handler_failed(1) obtain s1 where l: "listAccessKeys (iam this) user s = (Inr K, s1)"
    and w1: "w1 = (s1, tr @ [(ListAccessKeysRequest user, None)])"
    by (auto simp: traced_list outcome_def dest!: observed_run)
  from handler_failed(2) w1 obtain s2 where c: "createAccessKey (iam this) user s1 = (Inr key, s2)"
    and w2: "w2 = (s2, tr @ [(ListAccessKeysRequest user, None), (CreateAccessKeyRequest user, None)])"
    by (auto simp: traced_create outcome_def dest!: observed_run)
  from handler_failed(3) w2 obtain s3 where n: "newKeyHandler this key s2 = (Inl e, s3)"
    and w3: "w3 = (s3, tr @ [(ListAccessKeysRequest user, None), (CreateAccessKeyRequest user, None),
                   (NewKeyHandlerCall key, Some e)])"
    by (auto simp: traced_handler outcome_def dest!: observed_run)
  from handler_failed(4) w3 obtain s4 where d: "deleteAccessKey (iam this) (AccessKeyId key) user s3 = (dres, s4)"
    and w4: "w4 = (s4, tr @ [(ListAccessKeysRequest user, None), (CreateAccessKeyRequest user, None),
                   (NewKeyHandlerCall key, Some e),
                   (DeleteAccessKeyRequest (AccessKeyId key) user, outcome dres)])"
    by (auto simp: traced_delete dest!: observed_run)
  from traced_deleteKeys [OF handler_failed(5) [unfolded w4]] obtain evs where
    "deleteKeys this user K (Some (\<lambda>key. Status key = INACTIVE)) s4 = (hres, s')"
    "tr' = (tr @ [(ListAccessKeysRequest user, None), (CreateAccessKeyRequest user, None),
                   (NewKeyHandlerCall key, Some e),
                   (DeleteAccessKeyRequest (AccessKeyId key) user, outcome dres)]) @ evs"
    "map fst evs = map (\<lambda>k. DeleteAccessKeyRequest (AccessKeyId k) user)
                       (keysToDelete K (Some (\<lambda>key. Status key = INACTIVE)))"
    "case hres of Inl e' \<Rightarrow> (\<exists>ev\<in>set evs. snd ev = Some e') | Inr _ \<Rightarrow> (\<forall>ev\<in>set evs. snd ev = None)"
    by auto
  with l c n d handler_failed(6) show ?thesis
    by (intro that(3) [of K s1 key s2 e s3 dres s4 hres evs]) auto
next
  case (cleanup_failed K w1 key w2 w3 e w4 hres)
  from cleanup_failed(1) obtain s1 where l: "listAccessKeys (iam this) user s = (Inr K, s1)"
    and w1: "w1 = (s1, tr @ [(ListAccessKeysRequest user, None)])"
    by (auto simp: traced_list outcome_def dest!: observed_run)
  from cleanup_failed(2) w1 obtain s2 where c: "createAccessKey (iam this) user s1 = (Inr key, s2)"
    and w2: "w2 = (s2, tr @ [(ListAccessKeysRequest user, None), (CreateAccessKeyRequest user, None)])"
    by (auto simp: traced_create outcome_def dest!: observed_run)
  from cleanup_failed(3) w2 obtain s3 where n: "newKeyHandler this key s2 = (Inr (), s3)"
    and w3: "w3 = (s3, tr @ [(ListAccessKeysRequest user, None), (CreateAccessKeyRequest user, None),
                   (NewKeyHandlerCall key, None)])"
    by (auto simp: traced_handler outcome_def dest!: observed_run)
  obtain s4 tr4 where w4: "w4 = (s4, tr4)" by (cases w4)
  from traced_deleteKeys [OF cleanup_failed(4) [unfolded w3 w4]] obtain evs1 where
    k: "deleteKeys this user K None s3 = (Inl e, s4)"
    and tr4: "tr4 = (tr @ [(ListAccessKeysRequest user, None), (CreateAccessKeyRequest user, None),
                   (NewKeyHandlerCall key, None)]) @ evs1"
    and e1: "map fst evs1 = map (\<lambda>k. DeleteAccessKeyRequest (AccessKeyId k) user) (keysToDelete K None)"
      "\<exists>ev\<in>set evs1. snd ev = Some e"
    by auto
  from traced_deleteKeys [OF cleanup_failed(5) [unfolded w4]] obtain evs2 where
    "deleteKeys this user K (Some (\<lambda>key. Status key = INACTIVE)) s4 = (hres, s')"
    "tr' = tr4 @ evs2"
    "map fst evs2 = map (\<lambda>k. DeleteAccessKeyRequest (AccessKeyId k) user)
                       (keysToDelete K (Some (\<lambda>key. Status key = INACTIVE)))"
    "case hres of Inl e' \<Rightarrow> (\<exists>ev\<in>set evs2. snd ev = Some e') | Inr _ \<Rightarrow> (\<forall>ev\<in>set evs2. snd ev = None)"
    by auto
  with l c n k tr4 e1 cleanup_failed(6) show ?thesis
    by (intro that(4) [of K s1 key s2 s3 e s4 hres evs1 evs2]) auto
next
  case (success K w1 key w2 w3)
  from success(1) obtain s1 where l: "listAccessKeys (iam this) user s = (Inr K, s1)"
    and w1: "w1 = (s1, tr @ [(ListAccessKeysRequest user, None)])"
    by (auto simp: traced_list outcome_def dest!: observed_run)
  from success(2) w1 obtain s2 where c: "createAccessKey (iam this) user s1 = (Inr key, s2)"
    and w2: "w2 = (s2, tr @ [(ListAccessKeysRequest user, None), (CreateAccessKeyRequest user, None)])"
    by (auto simp: traced_create outcome_def dest!: observed_run)
  from success(3) w2 obtain s3 where n: "newKeyHandler this key s2 = (Inr (), s3)"
    and w3: "w3 = (s3, tr @ [(ListAccessKeysRequest user, None), (CreateAccessKeyRequest user, None),
                   (NewKeyHandlerCall key, None)])"
    by (auto simp: traced_handler outcome_def dest!: observed_run)
  from traced_deleteKeys [OF success(4) [unfolded w3]] obtain evs where
    "deleteKeys this user K None s3 = (Inr (), s')"
    "tr' = (tr @ [(ListAccessKeysRequest user, None), (CreateAccessKeyRequest user, None),
                   (NewKeyHandlerCall key, None)]) @ evs"
    "map fst evs = map (\<lambda>k. DeleteAccessKeyRequest (AccessKeyId k) user) (keysToDelete K None)"
    "\<forall>ev\<in>set evs. snd ev = None"
    by auto
  with l c n success(5) show ?thesis
    by (intro that(5) [of K s1 key s2 s3 evs]) auto
qed

subsection \<open>A run against the test doubles, summarised\<close>

text \<open>
  A run either leaves no new key and has deleted INACTIVE keys only, or it leaves the new
  ACTIVE key after the remaining old ones; in the second case it has either succeeded and
  deleted every old key, or it was rejected and has deleted INACTIVE keys only.
\<close>

lemma mock_delete_one:
  assumes "deleteKeys (keyRotator h) u K None s = (Inl e, s')" and "length K < 2"
  shows "keys s' = keys s \<and> uuid s' = uuid s \<and> newKey s' = newKey s"
proof (cases K)
  case Nil
  with assms show ?thesis by (simp add: deleteKeys_apply keysToDelete_def)
next
  case (Cons k ks)
  with assms have K: "K = [k]" by simp
  obtain r1 s1 where d: "deleteAccessKey (iam (keyRotator h)) (AccessKeyId k) u s = (r1, s1)"
    by (cases "deleteAccessKey (iam (keyRotator h)) (AccessKeyId k) u s")
  with assms(1) K have "s1 = s'" "isl r1"
    by (auto simp: deleteKeys_apply keysToDelete_def deleteKey_apply split: sum.splits)
  with mock_delete_run [OF d] show ?thesis by auto
qed

lemma unique_ids_fresh: "unique_ids s \<Longrightarrow> \<forall>k\<in>set (keys s). AccessKeyId k < uuid s"
  by (auto simp: unique_ids_def list_all_iff)

lemma unique_ids_inj: "unique_ids s \<Longrightarrow> k \<in> set (keys s) \<Longrightarrow> k' \<in> set (keys s) \<Longrightarrow> AccessKeyId k = AccessKeyId k' \<Longrightarrow> k = k'"
  by (auto simp: unique_ids_def distinct_map dest: inj_onD)

lemma filter_fresh:
  assumes "unique_ids s"
  shows "filter (\<lambda>k. AccessKeyId k \<noteq> uuid s) (keys s @ [createKey u (uuid s) st]) = keys s"
proof -
  have "filter (\<lambda>k. AccessKeyId k \<noteq> uuid s) (keys s) = keys s"
    using unique_ids_fresh [OF assms] by (intro filter_True) fastforce
  then show ?thesis by (simp add: createKey_def)
qed

lemma filter_keeps_fresh:
  assumes "unique_ids s" and "D \<subseteq> AccessKeyId ` set (keys s)"
  shows "filter (\<lambda>k. AccessKeyId k \<notin> D) (keys s @ [createKey u (uuid s) st])
           = filter (\<lambda>k. AccessKeyId k \<notin> D) (keys s) @ [createKey u (uuid s) st]"
proof -
  have "uuid s \<notin> D" using assms(2) unique_ids_fresh [OF assms(1)] by fastforce
  then show ?thesis by (simp add: createKey_def)
qed

lemma filter_filter_ids:
  "filter (\<lambda>k. AccessKeyId k \<notin> D2) (filter (\<lambda>k. AccessKeyId k \<notin> D1) ks)
     = filter (\<lambda>k. AccessKeyId k \<notin> D1 \<union> D2) ks"
  by (induction ks) auto

lemma mock_run_summary:
  assumes ids: "unique_ids s" and run: "rotateKeys (keyRotator h) u s = (res, s')"
  shows "(isl res \<and> uuid s \<le> uuid s'
            \<and> (\<exists>D. D \<subseteq> AccessKeyId ` {k \<in> set (keys s). Status k = INACTIVE}
                  \<and> keys s' = filter (\<lambda>k. AccessKeyId k \<notin> D) (keys s)))
       \<or> (length (keys s) < 2 \<and> uuid s' = Suc (uuid s)
            \<and> newKey s' = Some (createKey u (uuid s) ACTIVE)
            \<and> (\<exists>D. keys s' = filter (\<lambda>k. AccessKeyId k \<notin> D) (keys s) @ [createKey u (uuid s) ACTIVE]
                  \<and> (res = Inr ()
                        \<and> h \<lparr> UserName = u, AccessKeyId = uuid s, Status = ACTIVE, SecretAccessKey = '''' \<rparr> = None
                        \<and> D = AccessKeyId ` set (keys s)
                      \<or> isl res \<and> D \<subseteq> AccessKeyId ` {k \<in> set (keys s). Status k = INACTIVE})))"
    (is "?A \<or> ?B")
  using run
proof (cases rule: rotateKeys_cases)
  case (list_failed e)
  from mock_list_run [OF list_failed(1)] list_failed(2) have "isl res" "uuid s' = uuid s" "keys s' = filter (\<lambda>k. AccessKeyId k \<notin> {}) (keys s)"
    by auto
  then have ?A by (intro conjI exI [of _ "{}"]) auto
  then show ?thesis ..
next
  case (create_failed K s1 e s2 hres)
  from mock_list_run [OF create_failed(1)] have K: "K = keys s" and s1: "keys s1 = keys s" "uuid s1 = uuid s"
    by auto
  from mock_create_run [OF create_failed(2)] s1 have s2: "keys s2 = keys s" "uuid s2 = uuid s"
    by auto
  from mock_deleteKeys [OF create_failed(3)] obtain D where
    D: "D \<subseteq> AccessKeyId ` set (keysToDelete K (Some (\<lambda>key. Status key = INACTIVE)))"
    "keys s' = filter (\<lambda>k. AccessKeyId k \<notin> D) (keys s2)" "uuid s' = uuid s2"
    by auto
  have "isl res" using create_failed(4) by (cases hres) auto
  moreover have "D \<subseteq> AccessKeyId ` {k \<in> set (keys s). Status k = INACTIVE}"
    using D(1) K by (auto simp: keysToDelete_def)
  ultimately have ?A using D s2 by (intro conjI exI [of _ D]) auto
  then show ?thesis ..
next
  case (handler_failed K s1 key s2 e s3 dres s4 hres)
  from mock_list_run [OF handler_failed(1)] have K: "K = keys s" and s1: "keys s1 = keys s" "uuid s1 = uuid s"
    by auto
  from mock_create_run [OF handler_failed(2)] s1 have
    s2: "length (keys s) < 2" "keys s2 = keys s @ [createKey u (uuid s) ACTIVE]" "uuid s2 = Suc (uuid s)"
      "newKey s2 = Some (createKey u (uuid s) ACTIVE)"
    and key: "AccessKeyId key = uuid s"
    by auto
  from mock_handler_run [OF handler_failed(3)] have s3: "s3 = s2" by simp
  note d = mock_delete_run [OF handler_failed(4)]
  from mock_deleteKeys [OF handler_failed(5)] obtain D where
    D: "D \<subseteq> AccessKeyId ` set (keysToDelete K (Some (\<lambda>key. Status key = INACTIVE)))"
    "keys s' = filter (\<lambda>k. AccessKeyId k \<notin> D) (keys s4)" "uuid s' = uuid s4" "newKey s' = newKey s4"
    by auto
  have D': "D \<subseteq> AccessKeyId ` {k \<in> set (keys s). Status k = INACTIVE}"
    using D(1) K by (auto simp: keysToDelete_def)
  then have D'': "D \<subseteq> AccessKeyId ` set (keys s)" by auto
  have res: "isl res" using handler_failed(6) by (cases hres; cases dres) auto
  show ?thesis
  proof (cases dres)
    case (Inl e')
    with d s3 s2 have "keys s4 = keys s @ [createKey u (uuid s) ACTIVE]" by auto
    with D(2) have "keys s' = filter (\<lambda>k. AccessKeyId k \<notin> D) (keys s) @ [createKey u (uuid s) ACTIVE]"
      using filter_keeps_fresh [OF ids D'', of u ACTIVE] by auto
    with res D' D(3,4) d s3 s2 have ?B by (intro conjI exI [of _ D]) auto
    then show ?thesis ..
  next
    case (Inr x)
    with d s3 s2 key have "keys s4 = keys s" using filter_fresh [OF ids] by auto
    with res D' D(2,3) d s3 s2 have ?A by (intro conjI exI [of _ D]) auto
    then show ?thesis ..
  qed
next
  case (cleanup_failed K s1 key s2 s3 e s4 hres)
  from mock_list_run [OF cleanup_failed(1)] have K: "K = keys s" and s1: "keys s1 = keys s" "uuid s1 = uuid s"
    by auto
  from mock_create_run [OF cleanup_failed(2)] s1 have
    s2: "length (keys s) < 2" "keys s2 = keys s @ [createKey u (uuid s) ACTIVE]" "uuid s2 = Suc (uuid s)"
      "newKey s2 = Some (createKey u (uuid s) ACTIVE)"
    by auto
  from mock_handler_run [OF cleanup_failed(3)] have s3: "s3 = s2" by simp
  from mock_delete_one [OF cleanup_failed(4)] K s2(1) have s4: "keys s4 = keys s3" "uuid s4 = uuid s3" "newKey s4 = newKey s3"
    by auto
  from mock_deleteKeys [OF cleanup_failed(5)] obtain D where
    D: "D \<subseteq> AccessKeyId ` set (keysToDelete K (Some (\<lambda>key. Status key = INACTIVE)))"
    "keys s' = filter (\<lambda>k. AccessKeyId k \<notin> D) (keys s4)" "uuid s' = uuid s4" "newKey s' = newKey s4"
    by auto
  have D': "D \<subseteq> AccessKeyId ` {k \<in> set (keys s). Status k = INACTIVE}"
    using D(1) K by (auto simp: keysToDelete_def)
  then have D'': "D \<subseteq> AccessKeyId ` set (keys s)" by auto
  have res: "isl res" using cleanup_failed(6) by (cases hres) auto
  from D(2) s4 s3 s2 have "keys s' = filter (\<lambda>k. AccessKeyId k \<notin> D) (keys s) @ [createKey u (uuid s) ACTIVE]"
    using filter_keeps_fresh [OF ids D'', of u ACTIVE] by auto
  with res D' D(3,4) s4 s3 s2 have ?B by (intro conjI exI [of _ D]) auto
  then show ?thesis ..
next
  case (success K s1 key s2 s3)
  from mock_list_run [OF success(1)] have K: "K = keys s" and s1: "keys s1 = keys s" "uuid s1 = uuid s"
    by auto
  from mock_create_run [OF success(2)] s1 have
    s2: "length (keys s) < 2" "keys s2 = keys s @ [createKey u (uuid s) ACTIVE]" "uuid s2 = Suc (uuid s)"
      "newKey s2 = Some (createKey u (uuid s) ACTIVE)"
    and key: "key = \<lparr> UserName = u, AccessKeyId = uuid s, Status = ACTIVE, SecretAccessKey = '''' \<rparr>"
    by auto
  from mock_handler_run [OF success(3)] have s3: "s3 = s2" and h: "h key = None"
    by (auto split: option.splits)
  from mock_deleteKeys [OF success(4)] obtain D where
    D: "D = AccessKeyId ` set (keysToDelete K None)"
    "keys s' = filter (\<lambda>k. AccessKeyId k \<notin> D) (keys s3)" "uuid s' = uuid s3" "newKey s' = newKey s3"
    by auto
  have D': "D = AccessKeyId ` set (keys s)" using D(1) K by (simp add: keysToDelete_def)
  then have D'': "D \<subseteq> AccessKeyId ` set (keys s)" by auto
  from D(2) s3 s2 have "keys s' = filter (\<lambda>k. AccessKeyId k \<notin> D) (keys s) @ [createKey u (uuid s) ACTIVE]"
    using filter_keeps_fresh [OF ids D'', of u ACTIVE] by auto
  with success(5) D' D(3,4) s3 s2 h key have ?B by (intro conjI exI [of _ D]) auto
  then show ?thesis ..
qed

lemmas mock_defs = keyRotator_def mockIAM_def scheduled_def mockListAccessKeys_def mockCreateAccessKey_def
  mockDeleteAccessKey_def mockErrorCallback_def keyHandler_def createKey_def

lemmas chain_defs = rotateKeys_def performKeyRotation_def getExistingKeys_def createNewKey_def
  handleNewKey_def deleteKeys_def deleteKey_def keysToDelete_def
  promise_then_def promise_catch_def promise_resolve_def promise_reject_def
subsection \<open>Deletions against the test doubles, traced\<close>

lemma events_are_deletes:
  assumes "map fst evs = map (\<lambda>k. DeleteAccessKeyRequest (AccessKeyId k) u) ks" and "ev \<in> set evs"
  shows "\<exists>k\<in>set ks. fst ev = DeleteAccessKeyRequest (AccessKeyId k) u"
proof -
  from assms(2) have "fst ev \<in> set (map fst evs)" by simp
  with assms(1) show ?thesis by auto
qed

lemma mock_traced_delete_all:
  "promise_all (map (deleteKey (traced (keyRotator h)) u) ks) (s, tr) = (res, (s', tr')) \<Longrightarrow>
     \<exists>evs. tr' = tr @ evs \<and> set (keys s') \<subseteq> set (keys s)
       \<and> (\<forall>ev\<in>set evs. snd ev = None \<longrightarrow>
            (\<forall>i u'. fst ev = DeleteAccessKeyRequest i u' \<longrightarrow> i \<notin> AccessKeyId ` set (keys s')))"
proof (induction ks arbitrary: s tr res s' tr')
  case Nil
  then show ?case by auto
next
  case (Cons k ks)
  obtain r1 w1 where d: "deleteKey (traced (keyRotator h)) u k (s, tr) = (r1, w1)"
    by (cases "deleteKey (traced (keyRotator h)) u k (s, tr)")
  then obtain s1 where d1: "deleteAccessKey (iam (keyRotator h)) (AccessKeyId k) u s = (r1, s1)"
    and w1: "w1 = (s1, tr @ [(DeleteAccessKeyRequest (AccessKeyId k) u, outcome r1)])"
    by (auto simp: deleteKey_apply traced_delete dest: observed_run)
  obtain rs s2 tr2 where a: "promise_all (map (deleteKey (traced (keyRotator h)) u) ks) w1 = (rs, (s2, tr2))"
    by (cases "promise_all (map (deleteKey (traced (keyRotator h)) u) ks) w1") auto
  from Cons.prems d a have fin: "s' = s2" "tr' = tr2" by auto
  from Cons.IH [OF a [unfolded w1]] obtain evs where
    evs: "tr2 = (tr @ [(DeleteAccessKeyRequest (AccessKeyId k) u, outcome r1)]) @ evs"
      "set (keys s2) \<subseteq> set (keys s1)"
      "\<forall>ev\<in>set evs. snd ev = None \<longrightarrow>
            (\<forall>i u'. fst ev = DeleteAccessKeyRequest i u' \<longrightarrow> i \<notin> AccessKeyId ` set (keys s2))"
    by blast
  note m = mock_delete_run [OF d1]
  have sub: "set (keys s1) \<subseteq> set (keys s)" using m by auto
  have first: "outcome r1 = None \<longrightarrow> AccessKeyId k \<notin> AccessKeyId ` set (keys s2)"
  proof
    assume "outcome r1 = None"
    then have "\<not> isl r1" by (cases r1) (auto simp: outcome_def)
    with m have "keys s1 = filter (\<lambda>k'. AccessKeyId k' \<noteq> AccessKeyId k) (keys s)" by auto
    then have "AccessKeyId k \<notin> AccessKeyId ` set (keys s1)" by auto
    with evs(2) show "AccessKeyId k \<notin> AccessKeyId ` set (keys s2)" by auto
  qed
  let ?evs = "(DeleteAccessKeyRequest (AccessKeyId k) u, outcome r1) # evs"
  have "tr' = tr @ ?evs" using fin evs(1) by simp
  moreover have "set (keys s') \<subseteq> set (keys s)" using fin evs(2) sub by auto
  moreover have "\<forall>ev\<in>set ?evs. snd ev = None \<longrightarrow>
            (\<forall>i u'. fst ev = DeleteAccessKeyRequest i u' \<longrightarrow> i \<notin> AccessKeyId ` set (keys s'))"
    using fin evs(3) first by auto
  ultimately show ?case by blast
qed

lemma mock_traced_deleteKeys:
  assumes "deleteKeys (traced (keyRotator h)) u K f (s, tr) = (res, (s', tr'))"
  shows "\<exists>evs. tr' = tr @ evs \<and> set (keys s') \<subseteq> set (keys s)
       \<and> (\<forall>ev\<in>set evs. snd ev = None \<longrightarrow>
            (\<forall>i u'. fst ev = DeleteAccessKeyRequest i u' \<longrightarrow> i \<notin> AccessKeyId ` set (keys s')))"
proof -
  obtain rs s2 tr2 where a: "promise_all (map (deleteKey (traced (keyRotator h)) u) (keysToDelete K f)) (s, tr) = (rs, (s2, tr2))"
    by (cases "promise_all (map (deleteKey (traced (keyRotator h)) u) (keysToDelete K f)) (s, tr)") auto
  with assms have "s' = s2" "tr' = tr2"
    by (auto simp: deleteKeys_apply split: sum.splits)
  with mock_traced_delete_all [OF a] show ?thesis by simp
qed

subsection \<open>Runs against the test doubles\<close>

lemma traced_rotateKeys_sim:
  assumes "rotateKeys (traced this) user (s, tr) = (res, (s', tr'))"
  shows "rotateKeys this user s = (res, s')"
  using assms
  by (cases rule: traced_rotateKeys_cases)
     (simp_all add: rotateKeys_apply performKeyRotation_apply handleNewKey_apply self_heal_apply
        split: sum.splits)

lemma drop_inactive:
  assumes "unique_ids s"
  shows "filter (\<lambda>k. AccessKeyId k \<notin> AccessKeyId ` {k \<in> set (keys s). Status k = INACTIVE}) (keys s)
           = filter (\<lambda>k. Status k = ACTIVE) (keys s)"
proof (rule filter_cong [OF refl])
  fix k assume k: "k \<in> set (keys s)"
  show "(AccessKeyId k \<notin> AccessKeyId ` {k \<in> set (keys s). Status k = INACTIVE}) = (Status k = ACTIVE)"
  proof
    assume "AccessKeyId k \<notin> AccessKeyId ` {k \<in> set (keys s). Status k = INACTIVE}"
    with k have "Status k \<noteq> INACTIVE" by auto
    then show "Status k = ACTIVE" by (cases "Status k") auto
  next
    assume a: "Status k = ACTIVE"
    show "AccessKeyId k \<notin> AccessKeyId ` {k \<in> set (keys s). Status k = INACTIVE}"
    proof
      assume "AccessKeyId k \<in> AccessKeyId ` {k \<in> set (keys s). Status k = INACTIVE}"
      then obtain k' where "k' \<in> set (keys s)" "Status k' = INACTIVE" "AccessKeyId k = AccessKeyId k'"
        by auto
      with unique_ids_inj [OF assms k] a show False by auto
    qed
  qed
qed

lemma active_key_kept:
  assumes "unique_ids s" and "k \<in> set (keys s)" and "Status k = ACTIVE"
    and "D \<subseteq> AccessKeyId ` {k \<in> set (keys s). Status k = INACTIVE}"
  shows "AccessKeyId k \<notin> D"
proof
  assume "AccessKeyId k \<in> D"
  with assms(4) obtain k' where "k' \<in> set (keys s)" "Status k' = INACTIVE" "AccessKeyId k = AccessKeyId k'"
    by auto
  with unique_ids_inj [OF assms(1,2)] assms(3) show False by auto
qed

lemma unique_ids_filter:
  assumes "unique_ids s" and "keys s' = filter P (keys s)" and "uuid s \<le> uuid s'"
  shows "unique_ids s'"
  using assms by (auto simp: unique_ids_def list_all_iff distinct_map_filter)

lemma unique_ids_new_key:
  assumes "unique_ids s" and "keys s' = filter P (keys s) @ [createKey u (uuid s) st]"
    and "uuid s' = Suc (uuid s)"
  shows "unique_ids s'"
  using assms by (auto simp: unique_ids_def list_all_iff distinct_map_filter createKey_def)

lemma run_invariant:
  assumes ids: "unique_ids s" and cap: "length (keys s) \<le> 2"
    and run: "rotateKeys (keyRotator h) u s = (res, s')"
  shows "unique_ids s' \<and> length (keys s') \<le> 2
       \<and> ((\<exists>k\<in>set (keys s). Status k = ACTIVE) \<longrightarrow> (\<exists>k\<in>set (keys s'). Status k = ACTIVE))"
proof -
  from mock_run_summary [OF ids run]
  consider (unchanged) D where "uuid s \<le> uuid s'"
      "D \<subseteq> AccessKeyId ` {k \<in> set (keys s). Status k = INACTIVE}"
      "keys s' = filter (\<lambda>k. AccessKeyId k \<notin> D) (keys s)"
    | (created) D where "length (keys s) < 2" "uuid s' = Suc (uuid s)"
      "keys s' = filter (\<lambda>k. AccessKeyId k \<notin> D) (keys s) @ [createKey u (uuid s) ACTIVE]"
    by blast
  then show ?thesis
  proof cases
    case unchanged
    have "unique_ids s'" by (rule unique_ids_filter [OF ids unchanged(3,1)])
    moreover have "length (keys s') \<le> 2"
      unfolding unchanged(3) using cap length_filter_le [of _ "keys s"] by (meson le_trans)
    moreover have "(\<exists>k\<in>set (keys s). Status k = ACTIVE) \<longrightarrow> (\<exists>k\<in>set (keys s'). Status k = ACTIVE)"
    proof
      assume "\<exists>k\<in>set (keys s). Status k = ACTIVE"
      then obtain k where k: "k \<in> set (keys s)" "Status k = ACTIVE" by auto
      from active_key_kept [OF ids k unchanged(2)] k have "k \<in> set (keys s')"
        unfolding unchanged(3) by simp
      with k show "\<exists>k\<in>set (keys s'). Status k = ACTIVE" by auto
    qed
    ultimately show ?thesis by simp
  next
    case created
    have "unique_ids s'" by (rule unique_ids_new_key [OF ids created(3,2)])
    moreover have "length (filter (\<lambda>k. AccessKeyId k \<notin> D) (keys s)) < 2"
      using created(1) length_filter_le [of "\<lambda>k. AccessKeyId k \<notin> D" "keys s"] by linarith
    then have "length (keys s') \<le> 2" unfolding created(3) by simp
    moreover have "\<exists>k\<in>set (keys s'). Status k = ACTIVE"
      unfolding created(3) by (simp add: createKey_def)
    ultimately show ?thesis by simp
  qed
qed

subsection \<open>Positions in a trace\<close>

lemma nth_append_suffix:
  assumes "tr = pre @ evs" and "i < length tr" and "\<forall>x\<in>set pre. \<not> P x" and "P (tr ! i)"
  shows "length pre \<le> i \<and> tr ! i \<in> set evs"
proof -
  have "\<not> i < length pre"
  proof
    assume "i < length pre"
    then have "tr ! i \<in> set pre" unfolding assms(1) by (simp add: nth_append)
    with assms(3,4) show False by auto
  qed
  with assms(2) show ?thesis unfolding assms(1) by (auto simp: nth_append)
qed

lemma deleted_is_inactive:
  assumes "unique_ids s" and "D \<subseteq> AccessKeyId ` {k \<in> set (keys s). Status k = INACTIVE}"
    and "k \<in> set (keys s)" and "k \<notin> set (filter (\<lambda>k. AccessKeyId k \<notin> D) (keys s))"
  shows "Status k = INACTIVE"
proof -
  from assms(3,4) have "AccessKeyId k \<in> D" by simp
  with assms(2) obtain k' where "k' \<in> set (keys s)" "Status k' = INACTIVE" "AccessKeyId k = AccessKeyId k'"
    by auto
  with unique_ids_inj [OF assms(1,3)] show ?thesis by auto
qed

section \<open>The claims\<close>

subsection \<open>C1: a successful run leaves exactly the new ACTIVE key\<close>

text \<open>
  C1. Against the test doubles, under any schedule of faults and with any handler: if
  \<open>rotateKeys\<close> resolves, the identity holds exactly one key afterwards, that key is
  ACTIVE, it is the key created during this run (it carries the identifier drawn by this
  run's \<open>createAccessKey\<close> and is the double's \<open>newKey\<close>), and none of the keys listed at the
  start remains. In particular, from zero keys, with a service that answers every call and
  a handler that accepts the new key, the run resolves (and so ends with exactly that one
  ACTIVE key).
\<close>

theorem rotateKeys_success_one_active_key:
  assumes ids: "unique_ids s" and run: "rotateKeys (keyRotator h) u s = (res, s')"
  shows "(res = Inr () \<longrightarrow>
            keys s' = [createKey u (uuid s) ACTIVE] \<and> newKey s' = Some (createKey u (uuid s) ACTIVE)
            \<and> (\<forall>k\<in>set (keys s). k \<notin> set (keys s')))
       \<and> (keys s = [] \<and> faults s = []
            \<and> h \<lparr> UserName = u, AccessKeyId = uuid s, Status = ACTIVE, SecretAccessKey = '''' \<rparr> = None
          \<longrightarrow> res = Inr ())"
proof (intro conjI impI)
  assume ok: "res = Inr ()"
  from mock_run_summary [OF ids run] ok obtain D where
    D: "D = AccessKeyId ` set (keys s)"
       "keys s' = filter (\<lambda>k. AccessKeyId k \<notin> D) (keys s) @ [createKey u (uuid s) ACTIVE]"
    and nk: "newKey s' = Some (createKey u (uuid s) ACTIVE)"
    by auto
  have "filter (\<lambda>k. AccessKeyId k \<notin> D) (keys s) = []"
    unfolding D(1) by (simp add: filter_empty_conv)
  with D(2) show "keys s' = [createKey u (uuid s) ACTIVE]" by simp
  moreover have "createKey u (uuid s) ACTIVE \<notin> set (keys s)"
    using unique_ids_fresh [OF ids] by (fastforce simp: createKey_def)
  ultimately show "\<forall>k\<in>set (keys s). k \<notin> set (keys s')" by auto
  show "newKey s' = Some (createKey u (uuid s) ACTIVE)" by (rule nk)
next
  assume empty: "keys s = [] \<and> faults s = []
            \<and> h \<lparr> UserName = u, AccessKeyId = uuid s, Status = ACTIVE, SecretAccessKey = '''' \<rparr> = None"
  then have "fst (rotateKeys (keyRotator h) u s) = Inr ()"
    by (simp add: chain_defs mock_defs Let_def)
  with run show "res = Inr ()" by simp
qed

text \<open>
  The tests \<open>1 active key\<close> and \<open>no existing keys\<close>: the old key \<open>0\<close> is replaced by the new
  ACTIVE key \<open>1\<close>, and the run from no keys resolves.
\<close>

theorem rotateKeys_success_one_active_key_witness:
  "unique_ids (testState [ACTIVE] [])
   \<and> rotateKeys (keyRotator acceptingHandler) testUser (testState [ACTIVE] [])
       = (Inr (), \<lparr> keys = [createKey testUser 1 ACTIVE], newKey = Some (createKey testUser 1 ACTIVE),
                    uuid = 2, faults = [] \<rparr>)
   \<and> createKey testUser 0 ACTIVE \<in> set (keys (testState [ACTIVE] []))
   \<and> createKey testUser 0 ACTIVE \<notin> set [createKey testUser 1 ACTIVE]
   \<and> keys (testState [] []) = []
   \<and> fst (rotateKeys (keyRotator acceptingHandler) testUser (testState [] [])) = Inr ()"
proof -
  let ?s = "testState [ACTIVE] []"
  let ?s' = "\<lparr> keys = [createKey testUser 1 ACTIVE], newKey = Some (createKey testUser 1 ACTIVE),
                    uuid = 2, faults = [] \<rparr>"
  let ?R0 = "rotateKeys (keyRotator acceptingHandler) testUser (testState [] [])"
  have a: "unique_ids ?s" by code_simp
  have b: "rotateKeys (keyRotator acceptingHandler) testUser ?s = (Inr (), ?s')" by code_simp
  have c: "unique_ids (testState [] [])" by code_simp
  have d: "?R0 = (fst ?R0, snd ?R0)" by simp
  have e: "keys (testState [] []) = [] \<and> faults (testState [] []) = []
      \<and> acceptingHandler \<lparr> UserName = testUser, AccessKeyId = uuid (testState [] []), Status = ACTIVE,
            SecretAccessKey = '''' \<rparr> = None"
    by (simp add: testState_def acceptingHandler_def)
  from rotateKeys_success_one_active_key [OF a b] rotateKeys_success_one_active_key [OF c d] e
  show ?thesis using a b by (simp add: testState_def createKey_def)
qed

subsection \<open>C2: a failed creation is followed by the self-heal deletions, not by a retry\<close>

text \<open>
  C2, as stated, asks for a second creation request after the self-heal deletions.
  \<open>performKeyRotation\<close> sends none: its \<open>catch\<close> deletes the INACTIVE listed keys and then
  rejects with the error it caught. With two INACTIVE keys at the cap (the test
  \<open>2 inactive keys\<close>), the run sends one creation request, which is rejected, deletes both
  keys, and is rejected with the creation error although capacity is free by then; the
  identity is left with no key.
\<close>

theorem create_failure_not_retried:
  "rotateKeys (traced (keyRotator acceptingHandler)) testUser (testState [INACTIVE, INACTIVE] [], [])
     = (Inl ''Maximum 2 keys.'',
        (\<lparr> keys = [], newKey = None, uuid = 2, faults = [] \<rparr>,
         [(ListAccessKeysRequest testUser, None),
          (CreateAccessKeyRequest testUser, Some ''Maximum 2 keys.''),
          (DeleteAccessKeyRequest 0 testUser, None),
          (DeleteAccessKeyRequest 1 testUser, None)]))
   \<and> length (filter (is_create \<circ> fst)
        (snd (snd (rotateKeys (traced (keyRotator acceptingHandler)) testUser
                     (testState [INACTIVE, INACTIVE] [], []))))) = 1"
  by code_simp

text \<open>
  C2, amended. With any IAM client: when the listing succeeded with the keys \<open>K\<close> and the
  creation request is rejected with \<open>err\<close>, the rest of the run consists of exactly one
  deletion request for each key of \<open>K\<close> whose status is INACTIVE, in list order, and of
  nothing else: no ACTIVE listed key is deleted, creation is not requested again, and the
  deletions are not repeated. The run is rejected, and it is rejected with \<open>err\<close> when all
  these deletions succeed.
\<close>

theorem create_failure_self_heals_once:
  assumes list: "listAccessKeys (iam this) user s = (Inr K, s1)"
    and create: "createAccessKey (iam this) user s1 = (Inl err, s2)"
  shows "\<exists>res s' evs.
           rotateKeys (traced this) user (s, [])
             = (res, (s', [(ListAccessKeysRequest user, None),
                           (CreateAccessKeyRequest user, Some err)] @ evs))
         \<and> map fst evs = map (\<lambda>k. DeleteAccessKeyRequest (AccessKeyId k) user)
                             (filter (\<lambda>k. Status k = INACTIVE) K)
         \<and> isl res
         \<and> ((\<forall>ev\<in>set evs. snd ev = None) \<longrightarrow> res = Inl err)"
proof -
  obtain res s' tr' where run: "rotateKeys (traced this) user (s, []) = (res, (s', tr'))"
    by (cases "rotateKeys (traced this) user (s, [])") auto
  from run show ?thesis
  proof (cases rule: traced_rotateKeys_cases)
    case (list_failed e')
    with list show ?thesis by simp
  next
    case (create_failed K' s1' e' s2' hres evs)
    with list create have eq: "K' = K" "e' = err" by auto
    have "map fst evs = map (\<lambda>k. DeleteAccessKeyRequest (AccessKeyId k) user)
                             (filter (\<lambda>k. Status k = INACTIVE) K)"
      using create_failed(6) eq by (simp add: keysToDelete_def)
    moreover have "isl res" using create_failed(4) by (cases hres) auto
    moreover have "(\<forall>ev\<in>set evs. snd ev = None) \<longrightarrow> res = Inl err"
      using create_failed(4,7) eq by (cases hres) auto
    ultimately show ?thesis
      using run create_failed(5) eq by (intro exI [of _ res] exI [of _ s'] exI [of _ evs]) simp
  next
    case (handler_failed K' s1' key s2' e' s3' dres s4 hres evs)
    with list create show ?thesis by simp
  next
    case (cleanup_failed K' s1' key s2' s3' e' s4 hres evs1 evs2)
    with list create show ?thesis by simp
  next
    case (success K' s1' key s2' s3' evs)
    with list create show ?thesis by simp
  qed
qed

text \<open>
  The test \<open>1 active and 1 inactive key\<close>: after the rejected creation, the only request
  is the deletion of the INACTIVE key \<open>0\<close>.
\<close>

theorem create_failure_self_heals_once_witness:
  "listAccessKeys (iam (keyRotator acceptingHandler)) testUser (testState [INACTIVE, ACTIVE] [])
     = (Inr (keys (testState [INACTIVE, ACTIVE] [])), testState [INACTIVE, ACTIVE] [])
   \<and> createAccessKey (iam (keyRotator acceptingHandler)) testUser (testState [INACTIVE, ACTIVE] [])
     = (Inl ''Maximum 2 keys.'', testState [INACTIVE, ACTIVE] [])
   \<and> rotateKeys (traced (keyRotator acceptingHandler)) testUser (testState [INACTIVE, ACTIVE] [], [])
     = (Inl ''Maximum 2 keys.'',
        (\<lparr> keys = [createKey testUser 1 ACTIVE], newKey = None, uuid = 2, faults = [] \<rparr>,
         [(ListAccessKeysRequest testUser, None),
          (CreateAccessKeyRequest testUser, Some ''Maximum 2 keys.'')]
         @ [(DeleteAccessKeyRequest 0 testUser, None)]))
   \<and> filter (\<lambda>k. Status k = INACTIVE) (keys (testState [INACTIVE, ACTIVE] []))
     = [createKey testUser 0 INACTIVE]"
proof -
  let ?r = "keyRotator acceptingHandler"
  let ?s = "testState [INACTIVE, ACTIVE] []"
  have a: "listAccessKeys (iam ?r) testUser ?s = (Inr (keys ?s), ?s)" by code_simp
  have b: "createAccessKey (iam ?r) testUser ?s = (Inl ''Maximum 2 keys.'', ?s)" by code_simp
  have c: "rotateKeys (traced ?r) testUser (?s, [])
     = (Inl ''Maximum 2 keys.'',
        (\<lparr> keys = [createKey testUser 1 ACTIVE], newKey = None, uuid = 2, faults = [] \<rparr>,
         [(ListAccessKeysRequest testUser, None),
          (CreateAccessKeyRequest testUser, Some ''Maximum 2 keys.'')]
         @ [(DeleteAccessKeyRequest 0 testUser, None)]))"
    by code_simp
  have d: "filter (\<lambda>k. Status k = INACTIVE) (keys ?s) = [createKey testUser 0 INACTIVE]"
    by (simp add: testState_def createKey_def)
  from create_failure_self_heals_once [OF a b] a b c d
  show ?thesis by simp
qed

subsection \<open>C3: one ACTIVE and one INACTIVE key at the cap\<close>

text \<open>
  C3. The identity holds exactly two keys, one ACTIVE and one INACTIVE (in either order),
  and the service answers every call but rejects creation while two keys exist. Then
  \<open>rotateKeys\<close> is rejected (with the service's creation error), and the state it leaves
  differs from the starting state only in its keys: the INACTIVE key is gone, the ACTIVE key
  is still there as it was, and no key was created (\<open>newKey\<close> and the identifier supply are
  untouched). The handler is arbitrary; it is never called.
\<close>

theorem two_keys_active_inactive:
  assumes "faults s = []"
    and "keys s = [ka, kb]"
    and "AccessKeyId ka \<noteq> AccessKeyId kb"
    and "Status ka = ACTIVE \<and> Status kb = INACTIVE \<or> Status ka = INACTIVE \<and> Status kb = ACTIVE"
  shows "rotateKeys (keyRotator h) u s =
           (Inl ''Maximum 2 keys.'', s\<lparr> keys := [if Status ka = ACTIVE then ka else kb] \<rparr>)"
  using assms by (auto simp: chain_defs mock_defs Let_def)

text \<open>The test \<open>1 active and 1 inactive key\<close>.\<close>

theorem two_keys_active_inactive_witness:
  "faults (testState [INACTIVE, ACTIVE] []) = []
   \<and> keys (testState [INACTIVE, ACTIVE] []) = [createKey testUser 0 INACTIVE, createKey testUser 1 ACTIVE]
   \<and> AccessKeyId (createKey testUser 0 INACTIVE) \<noteq> AccessKeyId (createKey testUser 1 ACTIVE)
   \<and> Status (createKey testUser 0 INACTIVE) = INACTIVE \<and> Status (createKey testUser 1 ACTIVE) = ACTIVE
   \<and> rotateKeys (keyRotator acceptingHandler) testUser (testState [INACTIVE, ACTIVE] [])
       = (Inl ''Maximum 2 keys.'',
          \<lparr> keys = [createKey testUser 1 ACTIVE], newKey = None, uuid = 2, faults = [] \<rparr>)"
proof -
  let ?s = "testState [INACTIVE, ACTIVE] []"
  let ?ka = "createKey testUser 0 INACTIVE"
  let ?kb = "createKey testUser 1 ACTIVE"
  have a: "faults ?s = []" by (simp add: testState_def)
  have b: "keys ?s = [?ka, ?kb]" by (simp add: testState_def)
  have c: "AccessKeyId ?ka \<noteq> AccessKeyId ?kb" by (simp add: createKey_def)
  have d: "Status ?ka = ACTIVE \<and> Status ?kb = INACTIVE \<or> Status ?ka = INACTIVE \<and> Status ?kb = ACTIVE"
    by (simp add: createKey_def)
  from two_keys_active_inactive [OF a b c d, of acceptingHandler testUser] a b c d
  show ?thesis by (simp add: testState_def createKey_def)
qed

subsection \<open>C4: when the handler rejects the new key\<close>

text \<open>
  C4, as stated, says that no key listed at the start is deleted when the handler fails.
  The rejection raised by \<open>handleNewKey\<close> is caught by the \<open>catch\<close> of \<open>performKeyRotation\<close>,
  which deletes the INACTIVE listed keys before it rejects. With one INACTIVE key and a
  handler that rejects: the new key \<open>1\<close> is created and deleted again, then the listed key
  \<open>0\<close> is deleted, and the identity is left with no key.
\<close>

theorem handler_failure_deletes_inactive_key:
  "keys (testState [INACTIVE] []) = [createKey testUser 0 INACTIVE]
   \<and> rotateKeys (traced (keyRotator rejectingHandler)) testUser (testState [INACTIVE] [], [])
     = (Inl ''Could not handle new key'',
        (\<lparr> keys = [], newKey = Some (createKey testUser 1 ACTIVE), uuid = 2, faults = [] \<rparr>,
         [(ListAccessKeysRequest testUser, None),
          (CreateAccessKeyRequest testUser, None),
          (NewKeyHandlerCall \<lparr> UserName = testUser, AccessKeyId = 1, Status = ACTIVE,
                                SecretAccessKey = '''' \<rparr>, Some ''Could not handle new key''),
          (DeleteAccessKeyRequest 1 testUser, None),
          (DeleteAccessKeyRequest 0 testUser, None)]))"
  by code_simp

text \<open>
  C4, amended. Against the test doubles, under any schedule of faults: if key creation
  succeeded and the handler rejected the new key with \<open>e\<close>, then the run requests the
  deletion of the just-created key and after it the deletion of each listed key whose status
  is INACTIVE, and nothing else; the run is rejected; when all these deletions succeed it is
  rejected with the handler's error \<open>e\<close> and the identity is left with exactly its ACTIVE
  listed keys; and in every case each listed key whose status is ACTIVE is left untouched.
\<close>

theorem handler_failure_rolls_back_new_key:
  assumes ids: "unique_ids s"
    and run: "rotateKeys (traced (keyRotator h)) u (s, []) = (res, (s', tr))"
    and rejected: "(NewKeyHandlerCall key, Some e) \<in> set tr"
  shows "\<exists>oc evs.
           tr = [(ListAccessKeysRequest u, None), (CreateAccessKeyRequest u, None),
                 (NewKeyHandlerCall key, Some e),
                 (DeleteAccessKeyRequest (AccessKeyId key) u, oc)] @ evs
         \<and> map fst evs = map (\<lambda>k. DeleteAccessKeyRequest (AccessKeyId k) u)
                             (filter (\<lambda>k. Status k = INACTIVE) (keys s))
         \<and> isl res
         \<and> (oc = None \<and> (\<forall>ev\<in>set evs. snd ev = None)
              \<longrightarrow> res = Inl e \<and> keys s' = filter (\<lambda>k. Status k = ACTIVE) (keys s))
         \<and> (\<forall>k\<in>set (keys s). Status k = ACTIVE \<longrightarrow> k \<in> set (keys s'))"
  using run
proof (cases rule: traced_rotateKeys_cases)
  case (list_failed e')
  with rejected show ?thesis by simp
next
  case (create_failed K s1 e' s2 hres evs)
  with rejected have "(NewKeyHandlerCall key, Some e) \<in> set evs" by simp
  from events_are_deletes [OF create_failed(6) this] show ?thesis by simp
next
  case (handler_failed K s1 key' s2 e' s3 dres s4 hres evs)
  have "(NewKeyHandlerCall key, Some e) \<notin> set evs"
    using events_are_deletes [OF handler_failed(8)] by fastforce
  with rejected handler_failed(7) have eq: "key' = key" "e' = e" by auto
  from mock_list_run [OF handler_failed(1)] have K: "K = keys s" and s1: "keys s1 = keys s" "uuid s1 = uuid s"
    by auto
  from mock_create_run [OF handler_failed(2)] s1 have
    s2: "keys s2 = keys s @ [createKey u (uuid s) ACTIVE]" and key: "AccessKeyId key' = uuid s"
    by auto
  from mock_handler_run [OF handler_failed(3)] have s3: "s3 = s2" by simp
  note d = mock_delete_run [OF handler_failed(4)]
  from mock_deleteKeys [OF handler_failed(5)] obtain D where
    D: "D \<subseteq> AccessKeyId ` set (keysToDelete K (Some (\<lambda>key. Status key = INACTIVE)))"
    "keys s' = filter (\<lambda>k. AccessKeyId k \<notin> D) (keys s4)"
    "hres = Inr () \<longrightarrow> D = AccessKeyId ` set (keysToDelete K (Some (\<lambda>key. Status key = INACTIVE)))"
    by auto
  have sel: "keysToDelete K (Some (\<lambda>key. Status key = INACTIVE)) = filter (\<lambda>k. Status k = INACTIVE) (keys s)"
    using K by (simp add: keysToDelete_def)
  have ids_sel: "AccessKeyId ` set (filter (\<lambda>k. Status k = INACTIVE) (keys s))
                   = AccessKeyId ` {k \<in> set (keys s). Status k = INACTIVE}"
    by auto
  have D': "D \<subseteq> AccessKeyId ` {k \<in> set (keys s). Status k = INACTIVE}"
    using D(1) sel ids_sel by simp
  have res: "isl res" using handler_failed(6) by (cases hres; cases dres) auto
  have all_ok: "outcome dres = None \<and> (\<forall>ev\<in>set evs. snd ev = None)
                  \<longrightarrow> res = Inl e \<and> keys s' = filter (\<lambda>k. Status k = ACTIVE) (keys s)"
  proof
    assume ok: "outcome dres = None \<and> (\<forall>ev\<in>set evs. snd ev = None)"
    then have dres: "dres = Inr ()" by (cases dres) (auto simp: outcome_def)
    from ok handler_failed(9) have hres: "hres = Inr ()" by (cases hres) auto
    from dres d s3 s2 key have "keys s4 = keys s" using filter_fresh [OF ids] by auto
    moreover from hres D(3) sel ids_sel have "D = AccessKeyId ` {k \<in> set (keys s). Status k = INACTIVE}"
      by simp
    ultimately have "keys s' = filter (\<lambda>k. Status k = ACTIVE) (keys s)"
      using D(2) drop_inactive [OF ids] by simp
    moreover have "res = Inl e" using handler_failed(6) dres hres eq by simp
    ultimately show "res = Inl e \<and> keys s' = filter (\<lambda>k. Status k = ACTIVE) (keys s)" by simp
  qed
  have kept: "\<forall>k\<in>set (keys s). Status k = ACTIVE \<longrightarrow> k \<in> set (keys s')"
  proof (intro ballI impI)
    fix k assume k: "k \<in> set (keys s)" "Status k = ACTIVE"
    from d s3 s2 have "keys s4 = keys s @ [createKey u (uuid s) ACTIVE]
        \<or> keys s4 = filter (\<lambda>k. AccessKeyId k \<noteq> AccessKeyId key') (keys s @ [createKey u (uuid s) ACTIVE])"
      by auto
    with key filter_fresh [OF ids, of u ACTIVE] k have "k \<in> set (keys s4)" by auto
    with active_key_kept [OF ids k D'] D(2) show "k \<in> set (keys s')" by simp
  qed
  show ?thesis
    using handler_failed(7,8) eq sel res all_ok kept
    by (intro exI [of _ "outcome dres"] exI [of _ evs]) simp
next
  case (cleanup_failed K s1 key' s2 s3 e' s4 hres evs1 evs2)
  with rejected have "(NewKeyHandlerCall key, Some e) \<in> set evs1 \<or> (NewKeyHandlerCall key, Some e) \<in> set evs2"
    by auto
  with events_are_deletes [OF cleanup_failed(8)] events_are_deletes [OF cleanup_failed(10)]
  show ?thesis by fastforce
next
  case (success K s1 key' s2 s3 evs)
  with rejected have "(NewKeyHandlerCall key, Some e) \<in> set evs" by auto
  from events_are_deletes [OF success(7) this] show ?thesis by simp
qed

text \<open>
  The test \<open>error handling new key\<close>: one ACTIVE key \<open>0\<close> and a handler that rejects.
  The new key \<open>1\<close> is deleted again, key \<open>0\<close> stays, and the run is rejected with the
  handler's error.
\<close>

theorem handler_failure_rolls_back_new_key_witness:
  "unique_ids (testState [ACTIVE] [])
   \<and> rotateKeys (traced (keyRotator rejectingHandler)) testUser (testState [ACTIVE] [], [])
     = (Inl ''Could not handle new key'',
        (\<lparr> keys = [createKey testUser 0 ACTIVE], newKey = Some (createKey testUser 1 ACTIVE),
            uuid = 2, faults = [] \<rparr>,
         [(ListAccessKeysRequest testUser, None),
          (CreateAccessKeyRequest testUser, None),
          (NewKeyHandlerCall \<lparr> UserName = testUser, AccessKeyId = 1, Status = ACTIVE,
                                SecretAccessKey = '''' \<rparr>, Some ''Could not handle new key''),
          (DeleteAccessKeyRequest 1 testUser, None)]))
   \<and> createKey testUser 0 ACTIVE \<in> set (keys (testState [ACTIVE] []))
   \<and> Status (createKey testUser 0 ACTIVE) = ACTIVE
   \<and> filter (\<lambda>k. Status k = ACTIVE) (keys (testState [ACTIVE] [])) = [createKey testUser 0 ACTIVE]"
proof -
  let ?s = "testState [ACTIVE] []"
  let ?key = "\<lparr> UserName = testUser, AccessKeyId = 1, Status = ACTIVE, SecretAccessKey = '''' \<rparr>"
  let ?tr = "[(ListAccessKeysRequest testUser, None),
          (CreateAccessKeyRequest testUser, None),
          (NewKeyHandlerCall ?key, Some ''Could not handle new key''),
          (DeleteAccessKeyRequest 1 testUser, None)]"
  have a: "unique_ids ?s" by code_simp
  have b: "rotateKeys (traced (keyRotator rejectingHandler)) testUser (?s, [])
     = (Inl ''Could not handle new key'',
        (\<lparr> keys = [createKey testUser 0 ACTIVE], newKey = Some (createKey testUser 1 ACTIVE),
            uuid = 2, faults = [] \<rparr>, ?tr))"
    by code_simp
  have c: "(NewKeyHandlerCall ?key, Some ''Could not handle new key'') \<in> set ?tr" by simp
  from handler_failure_rolls_back_new_key [OF a b c] a b
  show ?thesis by (simp add: testState_def createKey_def)
qed

subsection \<open>C5: deleteKeys deletes exactly the selected keys\<close>

text \<open>
  C5. For every key list \<open>K\<close> and optional filter, \<open>keysToDelete\<close> is \<open>K\<close> itself when no filter
  is given and the keys of \<open>K\<close> that pass the filter otherwise. With any IAM client,
  \<open>deleteKeys\<close> sends exactly one \<open>deleteAccessKey\<close> request per selected key, in list order,
  and nothing else; when none of these requests is rejected, \<open>deleteKeys\<close> resolves. Against
  the test doubles, under any schedule of faults, every key whose identifier is not among
  the selected ones is still there afterwards, and when \<open>deleteKeys\<close> resolves none of the
  selected identifiers is left.
\<close>

theorem deleteKeys_deletes_selection:
  assumes traced_run: "deleteKeys (traced this) user K filter_opt (s, tr) = (res, (s', tr'))"
    and mock_run: "deleteKeys (keyRotator h) user K filter_opt m = (mres, m')"
  shows "keysToDelete K filter_opt = (case filter_opt of None \<Rightarrow> K | Some P \<Rightarrow> filter P K)
    \<and> (\<exists>evs. tr' = tr @ evs
          \<and> map fst evs = map (\<lambda>k. DeleteAccessKeyRequest (AccessKeyId k) user) (keysToDelete K filter_opt)
          \<and> ((\<forall>ev\<in>set evs. snd ev = None) \<longrightarrow> res = Inr ()))
    \<and> (\<forall>k\<in>set (keys m). AccessKeyId k \<notin> AccessKeyId ` set (keysToDelete K filter_opt) \<longrightarrow> k \<in> set (keys m'))
    \<and> (mres = Inr () \<longrightarrow> (\<forall>k\<in>set (keys m'). AccessKeyId k \<notin> AccessKeyId ` set (keysToDelete K filter_opt)))"
proof (intro conjI)
  show "keysToDelete K filter_opt = (case filter_opt of None \<Rightarrow> K | Some P \<Rightarrow> filter P K)"
    by (simp add: keysToDelete_def split: option.splits)
next
  from traced_deleteKeys [OF traced_run] obtain evs where
    "tr' = tr @ evs"
    "map fst evs = map (\<lambda>k. DeleteAccessKeyRequest (AccessKeyId k) user) (keysToDelete K filter_opt)"
    "case res of Inl e \<Rightarrow> (\<exists>ev\<in>set evs. snd ev = Some e) | Inr _ \<Rightarrow> (\<forall>ev\<in>set evs. snd ev = None)"
    by auto
  then show "\<exists>evs. tr' = tr @ evs
          \<and> map fst evs = map (\<lambda>k. DeleteAccessKeyRequest (AccessKeyId k) user) (keysToDelete K filter_opt)
          \<and> ((\<forall>ev\<in>set evs. snd ev = None) \<longrightarrow> res = Inr ())"
    by (cases res) (auto intro!: exI [of _ evs])
next
  from mock_deleteKeys [OF mock_run] obtain D where
    D: "D \<subseteq> AccessKeyId ` set (keysToDelete K filter_opt)"
       "keys m' = filter (\<lambda>k. AccessKeyId k \<notin> D) (keys m)"
       "mres = Inr () \<longrightarrow> D = AccessKeyId ` set (keysToDelete K filter_opt)"
    by auto
  from D(1,2) show "\<forall>k\<in>set (keys m). AccessKeyId k \<notin> AccessKeyId ` set (keysToDelete K filter_opt) \<longrightarrow> k \<in> set (keys m')"
    by auto
  from D(2,3) show "mres = Inr () \<longrightarrow> (\<forall>k\<in>set (keys m'). AccessKeyId k \<notin> AccessKeyId ` set (keysToDelete K filter_opt))"
    by auto
qed

text \<open>
  Deleting the INACTIVE keys of the listed \<open>[INACTIVE 0, ACTIVE 1]\<close>: one request, for key
  \<open>0\<close>; key \<open>1\<close> stays.
\<close>

theorem deleteKeys_deletes_selection_witness:
  "deleteKeys (traced (keyRotator acceptingHandler)) testUser (keys (testState [INACTIVE, ACTIVE] []))
       (Some (\<lambda>key. Status key = INACTIVE)) (testState [INACTIVE, ACTIVE] [], [])
     = (Inr (), (\<lparr> keys = [createKey testUser 1 ACTIVE], newKey = None, uuid = 2, faults = [] \<rparr>,
                 [(DeleteAccessKeyRequest 0 testUser, None)]))
   \<and> deleteKeys (keyRotator acceptingHandler) testUser (keys (testState [INACTIVE, ACTIVE] []))
       (Some (\<lambda>key. Status key = INACTIVE)) (testState [INACTIVE, ACTIVE] [])
     = (Inr (), \<lparr> keys = [createKey testUser 1 ACTIVE], newKey = None, uuid = 2, faults = [] \<rparr>)
   \<and> keysToDelete (keys (testState [INACTIVE, ACTIVE] [])) (Some (\<lambda>key. Status key = INACTIVE))
     = [createKey testUser 0 INACTIVE]
   \<and> createKey testUser 1 ACTIVE \<in> set (keys (testState [INACTIVE, ACTIVE] []))
   \<and> AccessKeyId (createKey testUser 1 ACTIVE) \<notin> AccessKeyId ` set [createKey testUser 0 INACTIVE]"
proof -
  let ?s = "testState [INACTIVE, ACTIVE] []"
  let ?s' = "\<lparr> keys = [createKey testUser 1 ACTIVE], newKey = None, uuid = 2, faults = [] \<rparr>"
  let ?f = "Some (\<lambda>key. Status key = INACTIVE)"
  have a: "deleteKeys (traced (keyRotator acceptingHandler)) testUser (keys ?s) ?f (?s, [])
             = (Inr (), (?s', [(DeleteAccessKeyRequest 0 testUser, None)]))"
    by code_simp
  have b: "deleteKeys (keyRotator acceptingHandler) testUser (keys ?s) ?f ?s = (Inr (), ?s')"
    by code_simp
  have c: "keysToDelete (keys ?s) ?f = [createKey testUser 0 INACTIVE]"
    by (simp add: keysToDelete_def testState_def createKey_def)
  from deleteKeys_deletes_selection [OF a b] a b c
  show ?thesis by (simp add: testState_def createKey_def)
qed

subsection \<open>C6: deleteKeys fails when a deletion fails, and does not roll back\<close>

text \<open>
  C6. For every key list and optional filter: with any IAM client, \<open>deleteKeys\<close> sends the
  request for every selected key whether or not an earlier one was rejected, and it is
  rejected whenever at least one of these requests was rejected. Against the test doubles,
  under any schedule of faults, every key whose deletion request succeeded is absent from
  the final state, also when \<open>deleteKeys\<close> as a whole is rejected. Partial deletion does
  happen: with the listed keys \<open>[ACTIVE 0, INACTIVE 1]\<close> and a fault on the first deletion
  only, \<open>deleteKeys\<close> is rejected, key \<open>1\<close> is deleted and key \<open>0\<close> remains.
\<close>

theorem deleteKeys_partial_failure:
  assumes traced_run: "deleteKeys (traced this) user K filter_opt (s, tr) = (res, (s', tr'))"
    and mock_run: "deleteKeys (traced (keyRotator h)) user K filter_opt (m, []) = (mres, (m', mtr))"
  shows "(\<exists>evs. tr' = tr @ evs
          \<and> map fst evs = map (\<lambda>k. DeleteAccessKeyRequest (AccessKeyId k) user) (keysToDelete K filter_opt)
          \<and> ((\<exists>ev\<in>set evs. snd ev \<noteq> None) \<longrightarrow> isl res))
    \<and> (\<forall>ev\<in>set mtr. snd ev = None \<longrightarrow>
          (\<forall>i u. fst ev = DeleteAccessKeyRequest i u \<longrightarrow> i \<notin> AccessKeyId ` set (keys m')))
    \<and> deleteKeys (keyRotator acceptingHandler) testUser (keys (testState [ACTIVE, INACTIVE] [True, False]))
          None (testState [ACTIVE, INACTIVE] [True, False])
        = (Inl ''Test Error'',
           \<lparr> keys = [createKey testUser 0 ACTIVE], newKey = None, uuid = 2, faults = [] \<rparr>)"
proof (intro conjI)
  from traced_deleteKeys [OF traced_run] obtain evs where
    "tr' = tr @ evs"
    "map fst evs = map (\<lambda>k. DeleteAccessKeyRequest (AccessKeyId k) user) (keysToDelete K filter_opt)"
    "case res of Inl e \<Rightarrow> (\<exists>ev\<in>set evs. snd ev = Some e) | Inr _ \<Rightarrow> (\<forall>ev\<in>set evs. snd ev = None)"
    by auto
  then show "\<exists>evs. tr' = tr @ evs
          \<and> map fst evs = map (\<lambda>k. DeleteAccessKeyRequest (AccessKeyId k) user) (keysToDelete K filter_opt)
          \<and> ((\<exists>ev\<in>set evs. snd ev \<noteq> None) \<longrightarrow> isl res)"
    by (cases res) (auto intro!: exI [of _ evs])
next
  from mock_traced_deleteKeys [OF mock_run]
  show "\<forall>ev\<in>set mtr. snd ev = None \<longrightarrow>
          (\<forall>i u. fst ev = DeleteAccessKeyRequest i u \<longrightarrow> i \<notin> AccessKeyId ` set (keys m'))"
    by auto
next
  show "deleteKeys (keyRotator acceptingHandler) testUser (keys (testState [ACTIVE, INACTIVE] [True, False]))
          None (testState [ACTIVE, INACTIVE] [True, False])
        = (Inl ''Test Error'',
           \<lparr> keys = [createKey testUser 0 ACTIVE], newKey = None, uuid = 2, faults = [] \<rparr>)"
    by code_simp
qed

text \<open>
  The same batch, traced: both requests are sent, the first is rejected, the second
  succeeds, and key \<open>1\<close> is gone from the final state.
\<close>

theorem deleteKeys_partial_failure_witness:
  "deleteKeys (traced (keyRotator acceptingHandler)) testUser (keys (testState [ACTIVE, INACTIVE] [True, False]))
       None (testState [ACTIVE, INACTIVE] [True, False], [])
     = (Inl ''Test Error'',
        (\<lparr> keys = [createKey testUser 0 ACTIVE], newKey = None, uuid = 2, faults = [] \<rparr>,
         [(DeleteAccessKeyRequest 0 testUser, Some ''Test Error''), (DeleteAccessKeyRequest 1 testUser, None)]))
   \<and> snd (DeleteAccessKeyRequest 0 testUser, Some ''Test Error'') \<noteq> None
   \<and> isl (Inl ''Test Error'' :: error + unit)
   \<and> snd (DeleteAccessKeyRequest 1 testUser, None :: error option) = None
   \<and> 1 \<notin> AccessKeyId ` set [createKey testUser 0 ACTIVE]"
proof -
  let ?s = "testState [ACTIVE, INACTIVE] [True, False]"
  let ?s' = "\<lparr> keys = [createKey testUser 0 ACTIVE], newKey = None, uuid = 2, faults = [] \<rparr>"
  let ?tr = "[(DeleteAccessKeyRequest 0 testUser, Some ''Test Error''), (DeleteAccessKeyRequest 1 testUser, None)]"
  have a: "deleteKeys (traced (keyRotator acceptingHandler)) testUser (keys ?s) None (?s, [])
             = (Inl ''Test Error'', (?s', ?tr))"
    by code_simp
  from deleteKeys_partial_failure [OF a a] a
  show ?thesis by (simp add: createKey_def)
qed

subsection \<open>C7: a failed self-heal deletion is the error of the run\<close>

text \<open>
  C7. With any IAM client: when the listing succeeded, key creation was rejected with \<open>err\<close>
  and the deletion of the INACTIVE listed keys that follows is rejected with \<open>e\<close>, then
  \<open>rotateKeys\<close> is rejected with \<open>e\<close>, not with \<open>err\<close>, in the state the deletions left. The
  trace of the run is the listing, the one rejected creation request, and after it only
  deletion requests (no further creation request), one of which was rejected with \<open>e\<close>.
\<close>

theorem self_heal_deletion_error_surfaces:
  assumes list: "listAccessKeys (iam this) user s = (Inr K, s1)"
    and create: "createAccessKey (iam this) user s1 = (Inl err, s2)"
    and heal: "deleteKeys this user K (Some (\<lambda>key. Status key = INACTIVE)) s2 = (Inl e, s3)"
  shows "rotateKeys this user s = (Inl e, s3)
     \<and> (\<exists>evs. rotateKeys (traced this) user (s, [])
                 = (Inl e, (s3, [(ListAccessKeysRequest user, None),
                                 (CreateAccessKeyRequest user, Some err)] @ evs))
          \<and> (\<forall>ev\<in>set evs. is_delete (fst ev)) \<and> (\<exists>ev\<in>set evs. snd ev = Some e))"
proof
  show "rotateKeys this user s = (Inl e, s3)"
    using list create heal
    by (simp add: rotateKeys_apply performKeyRotation_apply self_heal_apply)
next
  obtain res s' tr' where run: "rotateKeys (traced this) user (s, []) = (res, (s', tr'))"
    by (cases "rotateKeys (traced this) user (s, [])") auto
  from run show "\<exists>evs. rotateKeys (traced this) user (s, [])
                 = (Inl e, (s3, [(ListAccessKeysRequest user, None),
                                 (CreateAccessKeyRequest user, Some err)] @ evs))
          \<and> (\<forall>ev\<in>set evs. is_delete (fst ev)) \<and> (\<exists>ev\<in>set evs. snd ev = Some e)"
  proof (cases rule: traced_rotateKeys_cases)
    case (list_failed e')
    with list show ?thesis by simp
  next
    case (create_failed K' s1' e' s2' hres evs)
    with list create heal have eq: "K' = K" "e' = err" "hres = Inl e" "s' = s3" by auto
    have "\<forall>ev\<in>set evs. is_delete (fst ev)"
      using events_are_deletes [OF create_failed(6)] by fastforce
    moreover have "\<exists>ev\<in>set evs. snd ev = Some e"
      using create_failed(7) eq by simp
    ultimately show ?thesis
      using run create_failed(4,5) eq by (intro exI [of _ evs]) simp
  next
    case (handler_failed K' s1' key s2' e' s3' dres s4 hres evs)
    with list create show ?thesis by simp
  next
    case (cleanup_failed K' s1' key s2' s3' e' s4 hres evs1 evs2)
    with list create show ?thesis by simp
  next
    case (success K' s1' key s2' s3' evs)
    with list create show ?thesis by simp
  qed
qed

text \<open>
  Two INACTIVE keys at the cap, and a fault on the first self-heal deletion: the run is
  rejected with the deletion's \<open>Test Error\<close>, not with \<open>Maximum 2 keys.\<close>
\<close>

theorem self_heal_deletion_error_surfaces_witness:
  "listAccessKeys (iam (keyRotator acceptingHandler)) testUser (testState [INACTIVE, INACTIVE] [False, False, True])
     = (Inr (keys (testState [INACTIVE, INACTIVE] [])), testState [INACTIVE, INACTIVE] [False, True])
   \<and> createAccessKey (iam (keyRotator acceptingHandler)) testUser (testState [INACTIVE, INACTIVE] [False, True])
     = (Inl ''Maximum 2 keys.'', testState [INACTIVE, INACTIVE] [True])
   \<and> deleteKeys (keyRotator acceptingHandler) testUser (keys (testState [INACTIVE, INACTIVE] []))
        (Some (\<lambda>key. Status key = INACTIVE)) (testState [INACTIVE, INACTIVE] [True])
     = (Inl ''Test Error'', \<lparr> keys = [createKey testUser 0 INACTIVE], newKey = None, uuid = 2, faults = [] \<rparr>)
   \<and> rotateKeys (keyRotator acceptingHandler) testUser (testState [INACTIVE, INACTIVE] [False, False, True])
     = (Inl ''Test Error'', \<lparr> keys = [createKey testUser 0 INACTIVE], newKey = None, uuid = 2, faults = [] \<rparr>)"
proof -
  let ?r = "keyRotator acceptingHandler"
  let ?K = "keys (testState [INACTIVE, INACTIVE] [])"
  let ?s3 = "\<lparr> keys = [createKey testUser 0 INACTIVE], newKey = None, uuid = 2, faults = [] \<rparr>"
  have a: "listAccessKeys (iam ?r) testUser (testState [INACTIVE, INACTIVE] [False, False, True])
             = (Inr ?K, testState [INACTIVE, INACTIVE] [False, True])"
    by code_simp
  have b: "createAccessKey (iam ?r) testUser (testState [INACTIVE, INACTIVE] [False, True])
             = (Inl ''Maximum 2 keys.'', testState [INACTIVE, INACTIVE] [True])"
    by code_simp
  have c: "deleteKeys ?r testUser ?K (Some (\<lambda>key. Status key = INACTIVE)) (testState [INACTIVE, INACTIVE] [True])
             = (Inl ''Test Error'', ?s3)"
    by code_simp
  from self_heal_deletion_error_surfaces [OF a b c] a b c
  show ?thesis by simp
qed

subsection \<open>C8: what every sequence of runs preserves\<close>

text \<open>
  C8, as stated, says that a run never leaves the identity without keys when it held one
  before. The test \<open>2 inactive keys\<close> shows otherwise: creation is rejected at the cap, the
  self-heal deletes both INACTIVE keys, the run is rejected, and no key is left.
\<close>

theorem two_inactive_keys_leave_none:
  "length (keys (testState [INACTIVE, INACTIVE] [])) = 2
   \<and> fst (rotateKeys (keyRotator acceptingHandler) testUser (testState [INACTIVE, INACTIVE] []))
       = Inl ''Maximum 2 keys.''
   \<and> keys (runs [acceptingHandler] testUser (testState [INACTIVE, INACTIVE] [])) = []"
  by code_simp

text \<open>
  C8, amended. Against the test doubles, from every state with at most 2 keys (and unique
  identifiers), after any sequence of runs, with any handlers and any schedule of faults,
  failed runs included: the identity holds at most 2 keys, and if it held at least one
  ACTIVE key before, it holds at least one ACTIVE key afterwards. (Keys that are all INACTIVE
  may all be deleted by a failed run.)
\<close>

theorem runs_keep_cap_and_active_key:
  assumes "unique_ids s" and "length (keys s) \<le> 2"
  shows "length (keys (runs hs u s)) \<le> 2
       \<and> ((\<exists>k\<in>set (keys s). Status k = ACTIVE) \<longrightarrow> (\<exists>k\<in>set (keys (runs hs u s)). Status k = ACTIVE))"
  using assms
proof (induction hs arbitrary: s)
  case Nil
  then show ?case by simp
next
  case (Cons h hs)
  obtain res s' where run: "rotateKeys (keyRotator h) u s = (res, s')"
    by (cases "rotateKeys (keyRotator h) u s")
  from run_invariant [OF Cons.prems run] have
    inv: "unique_ids s'" "length (keys s') \<le> 2"
      "(\<exists>k\<in>set (keys s). Status k = ACTIVE) \<longrightarrow> (\<exists>k\<in>set (keys s'). Status k = ACTIVE)"
    by auto
  from Cons.IH [OF inv(1,2)] inv(3) run show ?case by simp
qed

text \<open>
  One ACTIVE key; a run whose handler rejects the new key, then a run whose old-key deletion
  is hit by a fault, then a run that is rejected at the cap: two keys are left, both ACTIVE.
\<close>

theorem runs_keep_cap_and_active_key_witness:
  "unique_ids (testState [ACTIVE] [False, False, False, False, False, True])
   \<and> length (keys (testState [ACTIVE] [False, False, False, False, False, True])) \<le> 2
   \<and> createKey testUser 0 ACTIVE \<in> set (keys (testState [ACTIVE] [False, False, False, False, False, True]))
   \<and> Status (createKey testUser 0 ACTIVE) = ACTIVE
   \<and> keys (runs [rejectingHandler, acceptingHandler, acceptingHandler] testUser
              (testState [ACTIVE] [False, False, False, False, False, True]))
       = [createKey testUser 0 ACTIVE, createKey testUser 2 ACTIVE]"
proof -
  let ?s = "testState [ACTIVE] [False, False, False, False, False, True]"
  have a: "unique_ids ?s" by code_simp
  have b: "length (keys ?s) \<le> 2" by (simp add: testState_def)
  have c: "keys (runs [rejectingHandler, acceptingHandler, acceptingHandler] testUser ?s)
             = [createKey testUser 0 ACTIVE, createKey testUser 2 ACTIVE]"
    by code_simp
  from runs_keep_cap_and_active_key [OF a b, of "[rejectingHandler, acceptingHandler, acceptingHandler]" testUser]
    a b c
  show ?thesis by (simp add: testState_def createKey_def)
qed

subsection \<open>C9: an ACTIVE listed key is deleted only after the handler accepted the new key\<close>

text \<open>
  C9. Against the test doubles (which reject creation at 2 keys), under any schedule of
  faults and with any handler, for a key \<open>k\<close> that is listed with status ACTIVE at the start
  of the run: every deletion request for \<open>k\<close> comes after a call of the handler that
  accepted the new key; if \<open>k\<close> is gone at the end, the run has succeeded; and when the run
  is rejected, every key of the starting state that is gone at the end has status INACTIVE.
\<close>

theorem active_key_deleted_only_after_acceptance:
  assumes ids: "unique_ids s"
    and run: "rotateKeys (traced (keyRotator h)) u (s, []) = (res, (s', tr))"
    and k: "k \<in> set (keys s)" "Status k = ACTIVE"
  shows "(\<forall>i<length tr. (\<exists>u'. fst (tr ! i) = DeleteAccessKeyRequest (AccessKeyId k) u')
            \<longrightarrow> (\<exists>j<i. \<exists>key. tr ! j = (NewKeyHandlerCall key, None)))
       \<and> (k \<notin> set (keys s') \<longrightarrow> res = Inr ())
       \<and> (isl res \<longrightarrow> (\<forall>k'\<in>set (keys s). k' \<notin> set (keys s') \<longrightarrow> Status k' = INACTIVE))"
proof (intro conjI)
  let ?P = "\<lambda>ev. \<exists>u'. fst ev = DeleteAccessKeyRequest (AccessKeyId k) u'"
  have not_inactive: "\<not> ?P ev"
    if "map fst evs = map (\<lambda>k. DeleteAccessKeyRequest (AccessKeyId k) u)
                        (keysToDelete (keys s) (Some (\<lambda>key. Status key = INACTIVE)))"
      and "ev \<in> set evs" for ev evs
  proof
    assume "?P ev"
    with events_are_deletes [OF that] obtain k' where
      "k' \<in> set (keys s)" "Status k' = INACTIVE" "AccessKeyId k = AccessKeyId k'"
      by (auto simp: keysToDelete_def)
    with unique_ids_inj [OF ids k(1)] k(2) show False by auto
  qed
  from run show "\<forall>i<length tr. ?P (tr ! i) \<longrightarrow> (\<exists>j<i. \<exists>key. tr ! j = (NewKeyHandlerCall key, None))"
  proof (cases rule: traced_rotateKeys_cases)
    case (list_failed e)
    then show ?thesis by simp
  next
    case (create_failed K s1 e s2 hres evs)
    from mock_list_run [OF create_failed(1)] have K: "K = keys s" by auto
    let ?pre = "[(ListAccessKeysRequest u, None), (CreateAccessKeyRequest u, Some e)]"
    show ?thesis
    proof (intro allI impI)
      fix i assume i: "i < length tr" "?P (tr ! i)"
      have tr: "tr = ?pre @ evs" using create_failed(5) by simp
      have pre: "\<forall>x\<in>set ?pre. \<not> ?P x" by simp
      from nth_append_suffix [OF tr i(1) pre i(2)] have "tr ! i \<in> set evs" by simp
      with not_inactive [OF create_failed(6) [unfolded K]] i(2)
      show "\<exists>j<i. \<exists>key. tr ! j = (NewKeyHandlerCall key, None)" by blast
    qed
  next
    case (handler_failed K s1 key s2 e s3 dres s4 hres evs)
    from mock_list_run [OF handler_failed(1)] have K: "K = keys s" and s1: "uuid s1 = uuid s" by auto
    from mock_create_run [OF handler_failed(2)] s1 have key: "AccessKeyId key = uuid s" by auto
    let ?pre = "[(ListAccessKeysRequest u, None), (CreateAccessKeyRequest u, None),
                 (NewKeyHandlerCall key, Some e)]"
    let ?d = "(DeleteAccessKeyRequest (AccessKeyId key) u, outcome dres)"
    show ?thesis
    proof (intro allI impI)
      fix i assume i: "i < length tr" "?P (tr ! i)"
      have tr: "tr = ?pre @ (?d # evs)" using handler_failed(7) by simp
      have pre: "\<forall>x\<in>set ?pre. \<not> ?P x" by simp
      from nth_append_suffix [OF tr i(1) pre i(2)] have "tr ! i = ?d \<or> tr ! i \<in> set evs" by simp
      moreover have "\<not> ?P ?d" using key unique_ids_fresh [OF ids] k(1) by fastforce
      ultimately have "tr ! i \<in> set evs" using i(2) by auto
      with not_inactive [OF handler_failed(8) [unfolded K]] i(2)
      show "\<exists>j<i. \<exists>key. tr ! j = (NewKeyHandlerCall key, None)" by blast
    qed
  next
    case (cleanup_failed K s1 key s2 s3 e s4 hres evs1 evs2)
    let ?pre = "[(ListAccessKeysRequest u, None), (CreateAccessKeyRequest u, None),
                 (NewKeyHandlerCall key, None)]"
    show ?thesis
    proof (intro allI impI)
      fix i assume i: "i < length tr" "?P (tr ! i)"
      have tr: "tr = ?pre @ (evs1 @ evs2)" using cleanup_failed(7) by simp
      have pre: "\<forall>x\<in>set ?pre. \<not> ?P x" by simp
      from nth_append_suffix [OF tr i(1) pre i(2)] have "3 \<le> i" by simp
      moreover have "tr ! 2 = (NewKeyHandlerCall key, None)" unfolding tr by simp
      ultimately show "\<exists>j<i. \<exists>key. tr ! j = (NewKeyHandlerCall key, None)"
        by (intro exI [of _ 2]) auto
    qed
  next
    case (success K s1 key s2 s3 evs)
    let ?pre = "[(ListAccessKeysRequest u, None), (CreateAccessKeyRequest u, None),
                 (NewKeyHandlerCall key, None)]"
    show ?thesis
    proof (intro allI impI)
      fix i assume i: "i < length tr" "?P (tr ! i)"
      have tr: "tr = ?pre @ evs" using success(6) by simp
      have pre: "\<forall>x\<in>set ?pre. \<not> ?P x" by simp
      from nth_append_suffix [OF tr i(1) pre i(2)] have "3 \<le> i" by simp
      moreover have "tr ! 2 = (NewKeyHandlerCall key, None)" unfolding tr by simp
      ultimately show "\<exists>j<i. \<exists>key. tr ! j = (NewKeyHandlerCall key, None)"
        by (intro exI [of _ 2]) auto
    qed
  qed
next
  note sum = mock_run_summary [OF ids traced_rotateKeys_sim [OF run]]
  from sum consider
      (unchanged) D where "isl res" "D \<subseteq> AccessKeyId ` {k \<in> set (keys s). Status k = INACTIVE}"
        "keys s' = filter (\<lambda>k. AccessKeyId k \<notin> D) (keys s)"
    | (succeeded) "res = Inr ()"
    | (created) D where "isl res" "D \<subseteq> AccessKeyId ` {k \<in> set (keys s). Status k = INACTIVE}"
        "keys s' = filter (\<lambda>k. AccessKeyId k \<notin> D) (keys s) @ [createKey u (uuid s) ACTIVE]"
    by blast
  then have "(k \<notin> set (keys s') \<longrightarrow> res = Inr ())
       \<and> (isl res \<longrightarrow> (\<forall>k'\<in>set (keys s). k' \<notin> set (keys s') \<longrightarrow> Status k' = INACTIVE))"
  proof cases
    case unchanged
    from active_key_kept [OF ids k unchanged(2)] k(1) have "k \<in> set (keys s')"
      unfolding unchanged(3) by simp
    moreover have "\<forall>k'\<in>set (keys s). k' \<notin> set (keys s') \<longrightarrow> Status k' = INACTIVE"
      using deleted_is_inactive [OF ids unchanged(2)] unfolding unchanged(3) by blast
    ultimately show ?thesis by simp
  next
    case succeeded
    then show ?thesis by simp
  next
    case created
    from active_key_kept [OF ids k created(2)] k(1) have "k \<in> set (keys s')"
      unfolding created(3) by simp
    moreover have "\<forall>k'\<in>set (keys s). k' \<notin> set (keys s') \<longrightarrow> Status k' = INACTIVE"
      using deleted_is_inactive [OF ids created(2)] unfolding created(3) by auto
    ultimately show ?thesis by simp
  qed
  then show "k \<notin> set (keys s') \<longrightarrow> res = Inr ()"
    and "isl res \<longrightarrow> (\<forall>k'\<in>set (keys s). k' \<notin> set (keys s') \<longrightarrow> Status k' = INACTIVE)"
    by simp_all
qed

text \<open>
  The test \<open>1 active key\<close>: the deletion of the ACTIVE key \<open>0\<close> is the fourth call of the
  run, after the handler accepted the new key in the third, and the run succeeds. The test
  \<open>1 active and 1 inactive key\<close>: the run is rejected, and the one key that is gone is the
  INACTIVE key \<open>0\<close>.
\<close>

theorem active_key_deleted_only_after_acceptance_witness:
  "unique_ids (testState [ACTIVE] [])
   \<and> createKey testUser 0 ACTIVE \<in> set (keys (testState [ACTIVE] []))
   \<and> Status (createKey testUser 0 ACTIVE) = ACTIVE
   \<and> rotateKeys (traced (keyRotator acceptingHandler)) testUser (testState [ACTIVE] [], [])
     = (Inr (),
        (\<lparr> keys = [createKey testUser 1 ACTIVE], newKey = Some (createKey testUser 1 ACTIVE),
            uuid = 2, faults = [] \<rparr>,
         [(ListAccessKeysRequest testUser, None),
          (CreateAccessKeyRequest testUser, None),
          (NewKeyHandlerCall \<lparr> UserName = testUser, AccessKeyId = 1, Status = ACTIVE,
                                SecretAccessKey = '''' \<rparr>, None),
          (DeleteAccessKeyRequest 0 testUser, None)]))
   \<and> createKey testUser 0 ACTIVE \<notin> set [createKey testUser 1 ACTIVE]
   \<and> unique_ids (testState [INACTIVE, ACTIVE] [])
   \<and> createKey testUser 1 ACTIVE \<in> set (keys (testState [INACTIVE, ACTIVE] []))
   \<and> createKey testUser 0 INACTIVE \<in> set (keys (testState [INACTIVE, ACTIVE] []))
   \<and> rotateKeys (traced (keyRotator acceptingHandler)) testUser (testState [INACTIVE, ACTIVE] [], [])
     = (Inl ''Maximum 2 keys.'',
        (\<lparr> keys = [createKey testUser 1 ACTIVE], newKey = None, uuid = 2, faults = [] \<rparr>,
         [(ListAccessKeysRequest testUser, None),
          (CreateAccessKeyRequest testUser, Some ''Maximum 2 keys.''),
          (DeleteAccessKeyRequest 0 testUser, None)]))
   \<and> createKey testUser 0 INACTIVE \<notin> set [createKey testUser 1 ACTIVE]
   \<and> Status (createKey testUser 0 INACTIVE) = INACTIVE"
proof -
  let ?s = "testState [ACTIVE] []"
  let ?k = "createKey testUser 0 ACTIVE"
  let ?t = "testState [INACTIVE, ACTIVE] []"
  let ?k1 = "createKey testUser 1 ACTIVE"
  have a: "unique_ids ?s" by code_simp
  have b: "rotateKeys (traced (keyRotator acceptingHandler)) testUser (?s, [])
     = (Inr (),
        (\<lparr> keys = [createKey testUser 1 ACTIVE], newKey = Some (createKey testUser 1 ACTIVE),
            uuid = 2, faults = [] \<rparr>,
         [(ListAccessKeysRequest testUser, None),
          (CreateAccessKeyRequest testUser, None),
          (NewKeyHandlerCall \<lparr> UserName = testUser, AccessKeyId = 1, Status = ACTIVE,
                                SecretAccessKey = '''' \<rparr>, None),
          (DeleteAccessKeyRequest 0 testUser, None)]))"
    by code_simp
  have c: "?k \<in> set (keys ?s)" by (simp add: testState_def)
  have d: "Status ?k = ACTIVE" by (simp add: createKey_def)
  have a': "unique_ids ?t" by code_simp
  have b': "rotateKeys (traced (keyRotator acceptingHandler)) testUser (?t, [])
     = (Inl ''Maximum 2 keys.'',
        (\<lparr> keys = [createKey testUser 1 ACTIVE], newKey = None, uuid = 2, faults = [] \<rparr>,
         [(ListAccessKeysRequest testUser, None),
          (CreateAccessKeyRequest testUser, Some ''Maximum 2 keys.''),
          (DeleteAccessKeyRequest 0 testUser, None)]))"
    by code_simp
  have c': "?k1 \<in> set (keys ?t)" by (simp add: testState_def)
  have d': "Status ?k1 = ACTIVE" by (simp add: createKey_def)
  from active_key_deleted_only_after_acceptance [OF a b c d]
    active_key_deleted_only_after_acceptance [OF a' b' c' d'] a b c d a' b' c'
  show ?thesis by (simp add: testState_def createKey_def)
qed

subsection \<open>C10: an accepted new key is never deleted by the run\<close>

text \<open>
  C10. Against the test doubles, under any schedule of faults: once the handler has accepted
  the new key, the run sends no deletion request for that key, and the key is in the final
  state, ACTIVE, whether the run then succeeds or is rejected. A rejected run can so end with
  two ACTIVE keys: with one ACTIVE key listed and a fault on its deletion (the test
  \<open>error deleting a key\<close>, there with an INACTIVE key), the run is rejected and leaves the
  old ACTIVE key \<open>0\<close> beside the new ACTIVE key \<open>1\<close>.
\<close>

theorem accepted_key_is_retained:
  assumes ids: "unique_ids s"
    and run: "rotateKeys (traced (keyRotator h)) u (s, []) = (res, (s', tr))"
    and accepted: "(NewKeyHandlerCall key, None) \<in> set tr"
  shows "(\<forall>ev\<in>set tr. \<forall>u'. fst ev \<noteq> DeleteAccessKeyRequest (AccessKeyId key) u')
       \<and> createKey u (AccessKeyId key) ACTIVE \<in> set (keys s')
       \<and> newKey s' = Some (createKey u (AccessKeyId key) ACTIVE)
       \<and> rotateKeys (keyRotator acceptingHandler) testUser (testState [ACTIVE] [False, False, True])
           = (Inl ''Test Error'',
              \<lparr> keys = [createKey testUser 0 ACTIVE, createKey testUser 1 ACTIVE],
                newKey = Some (createKey testUser 1 ACTIVE), uuid = 2, faults = [] \<rparr>)"
proof -
  have example: "rotateKeys (keyRotator acceptingHandler) testUser (testState [ACTIVE] [False, False, True])
           = (Inl ''Test Error'',
              \<lparr> keys = [createKey testUser 0 ACTIVE, createKey testUser 1 ACTIVE],
                newKey = Some (createKey testUser 1 ACTIVE), uuid = 2, faults = [] \<rparr>)"
    by code_simp
  have kept: "(\<forall>ev\<in>set (pre @ evs). \<forall>u'. fst ev \<noteq> DeleteAccessKeyRequest (AccessKeyId key) u')
       \<and> createKey u (AccessKeyId key) ACTIVE \<in> set (keys s')
       \<and> newKey s' = Some (createKey u (AccessKeyId key) ACTIVE)"
    if list: "listAccessKeys (iam (keyRotator h)) u s = (Inr K, s1)"
      and create: "createAccessKey (iam (keyRotator h)) u s1 = (Inr key, s2)"
      and handler: "newKeyHandler (keyRotator h) key s2 = (Inr (), s3)"
      and pre: "pre = [(ListAccessKeysRequest u, None), (CreateAccessKeyRequest u, None),
                       (NewKeyHandlerCall key, None)]"
      and evs: "\<forall>ev\<in>set evs. \<exists>k\<in>set K. fst ev = DeleteAccessKeyRequest (AccessKeyId k) u"
      and final: "keys s' = filter (\<lambda>k. AccessKeyId k \<notin> D) (keys s3)" "newKey s' = newKey s3"
        "D \<subseteq> AccessKeyId ` set K"
    for K s1 s2 s3 pre evs D
  proof -
    from mock_list_run [OF list] have K: "K = keys s" and s1: "keys s1 = keys s" "uuid s1 = uuid s"
      by auto
    from mock_create_run [OF create] s1 have
      s2: "keys s2 = keys s @ [createKey u (uuid s) ACTIVE]" "newKey s2 = Some (createKey u (uuid s) ACTIVE)"
      and key: "AccessKeyId key = uuid s"
      by auto
    from mock_handler_run [OF handler] have s3: "s3 = s2" by simp
    have fresh: "\<forall>k\<in>set K. AccessKeyId k \<noteq> AccessKeyId key"
      using unique_ids_fresh [OF ids] K key by fastforce
    have "\<forall>ev\<in>set (pre @ evs). \<forall>u'. fst ev \<noteq> DeleteAccessKeyRequest (AccessKeyId key) u'"
      using evs fresh pre by fastforce
    moreover have "AccessKeyId key \<notin> D" using final(3) fresh by fastforce
    then have "createKey u (AccessKeyId key) ACTIVE \<in> set (keys s')"
      unfolding final(1) s3 s2 key by (simp add: createKey_def)
    moreover have "newKey s' = Some (createKey u (AccessKeyId key) ACTIVE)"
      using final(2) s3 s2 key by simp
    ultimately show ?thesis by simp
  qed
  from run have "(\<forall>ev\<in>set tr. \<forall>u'. fst ev \<noteq> DeleteAccessKeyRequest (AccessKeyId key) u')
       \<and> createKey u (AccessKeyId key) ACTIVE \<in> set (keys s')
       \<and> newKey s' = Some (createKey u (AccessKeyId key) ACTIVE)"
  proof (cases rule: traced_rotateKeys_cases)
    case (list_failed e)
    with accepted show ?thesis by simp
  next
    case (create_failed K s1 e s2 hres evs)
    with accepted have "(NewKeyHandlerCall key, None) \<in> set evs" by simp
    from events_are_deletes [OF create_failed(6) this] show ?thesis by simp
  next
    case (handler_failed K s1 key' s2 e s3 dres s4 hres evs)
    with accepted have "(NewKeyHandlerCall key, None) \<in> set evs" by simp
    from events_are_deletes [OF handler_failed(8) this] show ?thesis by simp
  next
    case (cleanup_failed K s1 key' s2 s3 e s4 hres evs1 evs2)
    have "(NewKeyHandlerCall key, None) \<notin> set evs1" "(NewKeyHandlerCall key, None) \<notin> set evs2"
      using events_are_deletes [OF cleanup_failed(8)] events_are_deletes [OF cleanup_failed(10)]
      by fastforce+
    with accepted cleanup_failed(7) have eq: "key' = key" by auto
    from mock_deleteKeys [OF cleanup_failed(4)] obtain D1 where
      D1: "D1 \<subseteq> AccessKeyId ` set (keysToDelete K None)"
        "keys s4 = filter (\<lambda>k. AccessKeyId k \<notin> D1) (keys s3)" "newKey s4 = newKey s3"
      by auto
    from mock_deleteKeys [OF cleanup_failed(5)] obtain D2 where
      D2: "D2 \<subseteq> AccessKeyId ` set (keysToDelete K (Some (\<lambda>key. Status key = INACTIVE)))"
        "keys s' = filter (\<lambda>k. AccessKeyId k \<notin> D2) (keys s4)" "newKey s' = newKey s4"
      by auto
    have evs: "\<forall>ev\<in>set (evs1 @ evs2). \<exists>k\<in>set K. fst ev = DeleteAccessKeyRequest (AccessKeyId k) u"
      using events_are_deletes [OF cleanup_failed(8)] events_are_deletes [OF cleanup_failed(10)]
      by (fastforce simp: keysToDelete_def)
    have f1: "keys s' = filter (\<lambda>k. AccessKeyId k \<notin> D1 \<union> D2) (keys s3)"
      unfolding D2(2) D1(2) by (rule filter_filter_ids)
    have f2: "newKey s' = newKey s3" using D1(3) D2(3) by simp
    have f3: "D1 \<union> D2 \<subseteq> AccessKeyId ` set K"
      using D1(1) D2(1) by (auto simp: keysToDelete_def)
    have tr: "tr = [(ListAccessKeysRequest u, None), (CreateAccessKeyRequest u, None),
                    (NewKeyHandlerCall key, None)] @ (evs1 @ evs2)"
      using cleanup_failed(7) eq by simp
    show ?thesis
      unfolding tr
      by (rule kept [OF cleanup_failed(1) cleanup_failed(2) [unfolded eq] cleanup_failed(3) [unfolded eq]
            refl evs f1 f2 f3])
  next
    case (success K s1 key' s2 s3 evs)
    have "(NewKeyHandlerCall key, None) \<notin> set evs"
      using events_are_deletes [OF success(7)] by fastforce
    with accepted success(6) have eq: "key' = key" by auto
    from mock_deleteKeys [OF success(4)] obtain D where
      D: "D \<subseteq> AccessKeyId ` set (keysToDelete K None)"
        "keys s' = filter (\<lambda>k. AccessKeyId k \<notin> D) (keys s3)" "newKey s' = newKey s3"
      by auto
    have evs: "\<forall>ev\<in>set evs. \<exists>k\<in>set K. fst ev = DeleteAccessKeyRequest (AccessKeyId k) u"
      using events_are_deletes [OF success(7)] by (fastforce simp: keysToDelete_def)
    have f3: "D \<subseteq> AccessKeyId ` set K" using D(1) by (simp add: keysToDelete_def)
    have tr: "tr = [(ListAccessKeysRequest u, None), (CreateAccessKeyRequest u, None),
                    (NewKeyHandlerCall key, None)] @ evs"
      using success(6) eq by simp
    show ?thesis
      unfolding tr
      by (rule kept [OF success(1) success(2) [unfolded eq] success(3) [unfolded eq]
            refl evs D(2,3) f3])
  qed
  with example show ?thesis by simp
qed

text \<open>The run of the example, traced: the accepted key \<open>1\<close> is never deleted and stays.\<close>

theorem accepted_key_is_retained_witness:
  "unique_ids (testState [ACTIVE] [False, False, True])
   \<and> rotateKeys (traced (keyRotator acceptingHandler)) testUser (testState [ACTIVE] [False, False, True], [])
     = (Inl ''Test Error'',
        (\<lparr> keys = [createKey testUser 0 ACTIVE, createKey testUser 1 ACTIVE],
            newKey = Some (createKey testUser 1 ACTIVE), uuid = 2, faults = [] \<rparr>,
         [(ListAccessKeysRequest testUser, None),
          (CreateAccessKeyRequest testUser, None),
          (NewKeyHandlerCall \<lparr> UserName = testUser, AccessKeyId = 1, Status = ACTIVE,
                                SecretAccessKey = '''' \<rparr>, None),
          (DeleteAccessKeyRequest 0 testUser, Some ''Test Error'')]))
   \<and> createKey testUser 1 ACTIVE \<in> set [createKey testUser 0 ACTIVE, createKey testUser 1 ACTIVE]"
proof -
  let ?s = "testState [ACTIVE] [False, False, True]"
  let ?key = "\<lparr> UserName = testUser, AccessKeyId = 1, Status = ACTIVE, SecretAccessKey = '''' \<rparr>"
  let ?tr = "[(ListAccessKeysRequest testUser, None),
          (CreateAccessKeyRequest testUser, None),
          (NewKeyHandlerCall ?key, None),
          (DeleteAccessKeyRequest 0 testUser, Some ''Test Error'')]"
  have a: "unique_ids ?s" by code_simp
  have b: "rotateKeys (traced (keyRotator acceptingHandler)) testUser (?s, [])
     = (Inl ''Test Error'',
        (\<lparr> keys = [createKey testUser 0 ACTIVE, createKey testUser 1 ACTIVE],
            newKey = Some (createKey testUser 1 ACTIVE), uuid = 2, faults = [] \<rparr>, ?tr))"
    by code_simp
  have c: "(NewKeyHandlerCall ?key, None) \<in> set ?tr" by simp
  from accepted_key_is_retained [OF a b c] a b
  show ?thesis by simp
qed

end
